theory Spec2Isabelle
  imports Complex_Main "HOL-Library.Stream"
begin

section \<open>Calendar dates as the script uses them\<close>

text \<open>
  The script \<^verbatim>\<open>sample_data_generator.py\<close> works on naive \<^verbatim>\<open>datetime\<close> objects
  (no time zone). Such an object carries a proleptic Gregorian calendar date and a time
  of day; the library keeps every object inside the range 0001-01-01 .. 9999-12-31 and
  raises where an operation would leave it.
\<close>

record datetime =
  year :: nat
  month :: nat
  day :: nat
  hour :: nat
  minute :: nat
  second :: nat
  microsecond :: nat

datatype error = OverflowError | ValueError

definition MINYEAR :: nat where
  "MINYEAR = 1"

definition MAXYEAR :: nat where
  "MAXYEAR = 9999"

definition is_leap :: "nat \<Rightarrow> bool" where
  "is_leap y = (y mod 4 = 0 \<and> (y mod 100 \<noteq> 0 \<or> y mod 400 = 0))"

definition days_in_month :: "nat \<Rightarrow> nat \<Rightarrow> nat" where
  "days_in_month y m =
     (if m = 2 then (if is_leap y then 29 else 28)
      else if m = 4 \<or> m = 6 \<or> m = 9 \<or> m = 11 then 30
      else 31)"

text \<open>The objects the library can construct: every field inside its range.\<close>

definition valid :: "datetime \<Rightarrow> bool" where
  "valid d =
     (MINYEAR \<le> year d \<and> year d \<le> MAXYEAR \<and>
      1 \<le> month d \<and> month d \<le> 12 \<and>
      1 \<le> day d \<and> day d \<le> days_in_month (year d) (month d) \<and>
      hour d < 24 \<and> minute d < 60 \<and> second d < 60 \<and> microsecond d < 1000000)"

text \<open>
  \<^verbatim>\<open>current < end\<close> on two naive objects compares the seven fields
  lexicographically, most significant first.
\<close>

definition dt_key :: "datetime \<Rightarrow> nat list" where
  "dt_key d = [year d, month d, day d, hour d, minute d, second d, microsecond d]"

fun lex_less :: "nat list \<Rightarrow> nat list \<Rightarrow> bool" where
  "lex_less [] ys = (ys \<noteq> [])"
| "lex_less (x # xs) [] = False"
| "lex_less (x # xs) (y # ys) = (x < y \<or> (x = y \<and> lex_less xs ys))"

definition dt_less :: "datetime \<Rightarrow> datetime \<Rightarrow> bool" where
  "dt_less a b = lex_less (dt_key a) (dt_key b)"

text \<open>
  \<^verbatim>\<open>d.replace(day=n)\<close> builds a new object through the constructor, which raises
  \<^verbatim>\<open>ValueError\<close> when the day does not exist in the month.
\<close>

definition replace_day :: "datetime \<Rightarrow> nat \<Rightarrow> error + datetime" where
  "replace_day d n =
     (if 1 \<le> n \<and> n \<le> days_in_month (year d) (month d) then Inr (d\<lparr>day := n\<rparr>)
      else Inl ValueError)"

text \<open>
  \<^verbatim>\<open>d + timedelta(days=n)\<close> moves the calendar date forward by \<open>n\<close> days and
  keeps the time of day; it raises \<^verbatim>\<open>OverflowError\<close> when the result would lie
  after 9999-12-31. One day forward:
\<close>

definition next_day :: "datetime \<Rightarrow> error + datetime" where
  "next_day d =
     (if day d < days_in_month (year d) (month d) then Inr (d\<lparr>day := day d + 1\<rparr>)
      else if month d < 12 then Inr (d\<lparr>month := month d + 1, day := 1\<rparr>)
      else if year d < MAXYEAR then Inr (d\<lparr>year := year d + 1, month := 1, day := 1\<rparr>)
      else Inl OverflowError)"

fun add_days :: "datetime \<Rightarrow> nat \<Rightarrow> error + datetime" where
  "add_days d 0 = Inr d"
| "add_days d (Suc n) =
     (case next_day d of Inl e \<Rightarrow> Inl e | Inr d' \<Rightarrow> add_days d' n)"

subsection \<open>Formatting\<close>

text \<open>
  \<^verbatim>\<open>strftime("%m/%d/%Y")\<close>: month and day as two digits, zero-padded, and the year
  as the C library of the platform writes it. From the year 1000 on that is its four
  digits. Below 1000 the platforms differ; the GNU C library writes the year without
  padding (\<^verbatim>\<open>12/01/999\<close>), and that is what is modelled here.
\<close>

definition digit_char :: "nat \<Rightarrow> char" where
  "digit_char n = ''0123456789'' ! (n mod 10)"

fun str_nat :: "nat \<Rightarrow> string" where
  "str_nat n = (if n < 10 then [digit_char n] else str_nat (n div 10) @ [digit_char n])"

declare str_nat.simps [simp del]

definition zfill :: "nat \<Rightarrow> string \<Rightarrow> string" where
  "zfill w s = replicate (w - length s) (CHR ''0'') @ s"

definition strftime :: "datetime \<Rightarrow> string" where
  "strftime d =
     zfill 2 (str_nat (month d)) @ ''/'' @ zfill 2 (str_nat (day d)) @ ''/'' @
     str_nat (year d)"

section \<open>The month enumerator\<close>

text \<open>
  Lines 17 and 18 of the script, the advance by one month:
  \<^verbatim>\<open>current = current.replace(day=28) + timedelta(days=4)\<close>, then
  \<^verbatim>\<open>current = current.replace(day=1)\<close>. Any of the three calls may raise.
\<close>

definition advance :: "datetime \<Rightarrow> error + datetime" where
  "advance current =
     (case replace_day current 28 of
        Inl e \<Rightarrow> Inl e
      | Inr c1 \<Rightarrow>
          (case add_days c1 4 of
             Inl e \<Rightarrow> Inl e
           | Inr c2 \<Rightarrow> replace_day c2 1))"

text \<open>
  The \<^verbatim>\<open>while\<close> loop of \<^verbatim>\<open>get_months\<close>. The option layer is the loop itself: \<open>None\<close>
  stands for a loop that never ends. Inside it, \<open>Inl\<close> is an exception leaving the
  function and \<open>Inr\<close> the returned list.
\<close>

partial_function (option) get_months_loop ::
  "datetime \<Rightarrow> datetime \<Rightarrow> string list \<Rightarrow> (error + string list) option" where
  "get_months_loop current end_d months =
     (if dt_less current end_d then
        (case advance current of
           Inl e \<Rightarrow> Some (Inl e)
         | Inr current' \<Rightarrow> get_months_loop current' end_d (months @ [strftime current]))
      else Some (Inr months))"

definition get_months :: "datetime \<Rightarrow> datetime \<Rightarrow> (error + string list) option" where
  "get_months start end_d = get_months_loop start end_d []"

definition mk_date :: "nat \<Rightarrow> nat \<Rightarrow> nat \<Rightarrow> datetime" where
  "mk_date y m d =
     \<lparr>year = y, month = m, day = d, hour = 0, minute = 0, second = 0, microsecond = 0\<rparr>"

definition start_date :: datetime where
  "start_date = mk_date 2022 1 1"

definition end_date :: datetime where
  "end_date = mk_date 2025 1 1"

subsection \<open>What the enumeration is meant to visit\<close>

text \<open>
  Following the specification's words, not the code: the first day of the calendar month
  immediately after the month of \<open>d\<close> (the time of day is left as it is), the number
  of a calendar month counted from year 0, and the running date after \<open>k\<close> advances.
\<close>

definition month_after :: "datetime \<Rightarrow> datetime" where
  "month_after d =
     d\<lparr>year := (if month d = 12 then year d + 1 else year d),
       month := (if month d = 12 then 1 else month d + 1),
       day := 1\<rparr>"

definition month_index :: "datetime \<Rightarrow> nat" where
  "month_index d = 12 * year d + (month d - 1)"

definition running_date :: "datetime \<Rightarrow> nat \<Rightarrow> datetime" where
  "running_date start k = (month_after ^^ k) start"

text \<open>The three fields of a label \<^verbatim>\<open>MM/DD/YYYY\<close>.\<close>

definition month_field :: "string \<Rightarrow> string" where
  "month_field l = take 2 l"

definition day_field :: "string \<Rightarrow> string" where
  "day_field l = take 2 (drop 3 l)"

definition year_field :: "string \<Rightarrow> string" where
  "year_field l = drop 6 l"

section \<open>The library calls of the row synthesizer\<close>

subsection \<open>Floating-point numbers\<close>

text \<open>
  A Python \<^verbatim>\<open>float\<close> is an IEEE 754 binary64 number. The finite ones are rationals,
  and every arithmetic operation returns the exact result rounded to the nearest
  representable number, ties to the even significand. \<open>fl\<close> is that rounding: a number
  in the binade \<open>[2^e, 2^(e+1))\<close> is rounded to a multiple of \<open>2^(e-52)\<close> (53 significant
  bits), and below \<open>2^(-1022)\<close> the spacing stays \<open>2^(-1074)\<close>. Magnitudes from
  \<open>2^1024\<close> on, where the machine gives infinity, do not occur in the script and are
  not modelled.
\<close>

definition rhe :: "rat \<Rightarrow> int" where
  "rhe y =
     (let f = \<lfloor>y\<rfloor>; d = y - of_int f
      in if d < 1 / 2 then f else if 1 / 2 < d then f + 1
         else if even f then f else f + 1)"

fun bit_length :: "nat \<Rightarrow> nat" where
  "bit_length n = (if n = 0 then 0 else Suc (bit_length (n div 2)))"

declare bit_length.simps [simp del]

definition ilog2 :: "rat \<Rightarrow> int" where
  "ilog2 x =
     (if 1 \<le> x then int (bit_length (nat \<lfloor>x\<rfloor>)) - 1
      else - int (bit_length (nat (\<lceil>1 / x\<rceil> - 1))))"

definition fl :: "rat \<Rightarrow> rat" where
  "fl x =
     (if x = 0 then 0
      else
        let e = max (ilog2 \<bar>x\<bar>) (- 1022)
        in if e \<le> 52 then of_int (rhe (x * 2 ^ nat (52 - e))) / 2 ^ nat (52 - e)
           else of_int (rhe (x / 2 ^ nat (e - 52))) * 2 ^ nat (e - 52))"

text \<open>An \<^verbatim>\<open>int\<close> operand of a mixed operation is converted to \<^verbatim>\<open>float\<close> first.\<close>

definition float_of_int :: "int \<Rightarrow> rat" where
  "float_of_int i = fl (of_int i)"

definition float_mul_int :: "rat \<Rightarrow> int \<Rightarrow> rat" where
  "float_mul_int x i = fl (x * float_of_int i)"

definition int_add_float :: "int \<Rightarrow> rat \<Rightarrow> rat" where
  "int_add_float i x = fl (float_of_int i + x)"

definition int_mul_float :: "int \<Rightarrow> rat \<Rightarrow> rat" where
  "int_mul_float i x = fl (float_of_int i * x)"

text \<open>
  \<^verbatim>\<open>round(x, ndigits)\<close> on a float: the exact value of \<open>x\<close> rounded to the closest
  multiple of \<open>10^(-ndigits)\<close>, ties to the even one, then the float nearest to that
  decimal.
\<close>

definition py_round :: "rat \<Rightarrow> nat \<Rightarrow> rat" where
  "py_round x ndigits = fl (of_int (rhe (x * 10 ^ ndigits)) / 10 ^ ndigits)"

subsection \<open>The random source\<close>

text \<open>
  The generator is the one input of the script. It is a stream of naturals; each library
  call takes the head and reduces it into the range the library documents, so that every
  outcome of a call comes from some stream. \<^verbatim>\<open>random()\<close> is a multiple of \<open>2^(-53)\<close> in
  \<open>[0, 1)\<close>; \<^verbatim>\<open>uniform(a, b)\<close> is \<^verbatim>\<open>a + (b - a) * random()\<close>; \<^verbatim>\<open>randint(a, b)\<close> is an
  integer \<open>N\<close> with \<open>a \<le> N \<le> b\<close> (for \<open>a \<le> b\<close>, the only calls the script makes).
\<close>

definition random :: "nat stream \<Rightarrow> rat \<times> nat stream" where
  "random rng = (of_nat (shd rng mod 2 ^ 53) / 2 ^ 53, stl rng)"

definition uniform :: "int \<Rightarrow> int \<Rightarrow> nat stream \<Rightarrow> rat \<times> nat stream" where
  "uniform a b rng =
     (case random rng of (r, rng') \<Rightarrow> (int_add_float a (int_mul_float (b - a) r), rng'))"

definition randint :: "int \<Rightarrow> int \<Rightarrow> nat stream \<Rightarrow> int \<times> nat stream" where
  "randint a b rng = (a + int (shd rng mod nat (b - a + 1)), stl rng)"

section \<open>The row synthesizer\<close>

record row =
  month_label :: string
  product_name :: string
  unit_price :: rat
  quantity :: int
  sales_amount :: rat

text \<open>Line 6: \<^verbatim>\<open>[f"Product {i+1}" for i in range(15)]\<close>.\<close>

definition products :: "string list" where
  "products = map (\<lambda>i. ''Product '' @ str_nat (i + 1)) [0..<15]"

text \<open>
  Lines 24 to 30. The inner loop appends one row per product, the outer loop runs it for
  each month; both thread the list \<^verbatim>\<open>data\<close> and the generator.
\<close>

fun product_loop ::
  "string \<Rightarrow> string list \<Rightarrow> row list \<Rightarrow> nat stream \<Rightarrow> row list \<times> nat stream" where
  "product_loop month_v [] data rng = (data, rng)"
| "product_loop month_v (product # ps) data rng =
     (case uniform 5 50 rng of (u, rng1) \<Rightarrow>
        let unit_price_v = py_round u 2 in
        (case randint 50 500 rng1 of (quantity_v, rng2) \<Rightarrow>
           let sales = py_round (float_mul_int unit_price_v quantity_v) 2
           in product_loop month_v ps
                (data @ [\<lparr>month_label = month_v, product_name = product,
                           unit_price = unit_price_v, quantity = quantity_v,
                           sales_amount = sales\<rparr>]) rng2))"

fun month_loop ::
  "string list \<Rightarrow> string list \<Rightarrow> row list \<Rightarrow> nat stream \<Rightarrow> row list \<times> nat stream" where
  "month_loop [] prods data rng = (data, rng)"
| "month_loop (month_v # ms) prods data rng =
     (case product_loop month_v prods data rng of
        (data', rng') \<Rightarrow> month_loop ms prods data' rng')"

definition generate :: "string list \<Rightarrow> nat stream \<Rightarrow> row list" where
  "generate months rng = fst (month_loop months products [] rng)"

section \<open>The serializer\<close>

text \<open>
  \<^verbatim>\<open>csv.writer\<close> with the default dialect: fields joined by a comma, a field holding the
  delimiter, the quote character or a character of the line terminator is enclosed in
  double quotes with its quotes doubled, a row made of one empty field is written as a
  pair of quotes, and every row ends with carriage return and line feed (the file is
  opened with \<^verbatim>\<open>newline=""\<close>, so the terminator is written as it is).
\<close>

definition CR :: char where
  "CR = CHR 0x0D"

definition LF :: char where
  "LF = CHR 0x0A"

definition DQUOTE :: char where
  "DQUOTE = CHR 0x22"

definition lineterminator :: string where
  "lineterminator = [CR, LF]"

definition csv_special :: "char \<Rightarrow> bool" where
  "csv_special c = (c = CHR '','' \<or> c = DQUOTE \<or> c = CR \<or> c = LF)"

definition csv_field :: "string \<Rightarrow> string" where
  "csv_field s =
     (if list_ex csv_special s
      then [DQUOTE] @ concat (map (\<lambda>c. if c = DQUOTE then [DQUOTE, DQUOTE] else [c]) s) @ [DQUOTE]
      else s)"

fun join_fields :: "string list \<Rightarrow> string" where
  "join_fields [] = []"
| "join_fields [f] = f"
| "join_fields (f # g # fs) = f @ '','' @ join_fields (g # fs)"

definition record_text :: "string list \<Rightarrow> string" where
  "record_text fs = (if fs = [[]] then [DQUOTE, DQUOTE] else join_fields (map csv_field fs))"

definition writerow :: "string list \<Rightarrow> string" where
  "writerow fs = record_text fs @ lineterminator"

text \<open>
  A non-string field is written as \<^verbatim>\<open>str\<close> gives it. For an \<^verbatim>\<open>int\<close> that is its
  decimal numeral; for a \<^verbatim>\<open>float\<close> it is the shortest decimal that reads back as the
  same number, which stays a parameter \<open>float_str\<close> here.
\<close>

definition str_int :: "int \<Rightarrow> string" where
  "str_int i = (if i < 0 then ''-'' @ str_nat (nat (- i)) else str_nat (nat i))"

definition row_fields :: "(rat \<Rightarrow> string) \<Rightarrow> row \<Rightarrow> string list" where
  "row_fields float_str r =
     [month_label r, product_name r, float_str (unit_price r), str_int (quantity r),
      float_str (sales_amount r)]"

definition header :: "string list" where
  "header = [''month/year'', ''product name'', ''unit price'', ''quantity'', ''sales amount'']"

definition csv_file :: "(rat \<Rightarrow> string) \<Rightarrow> row list \<Rightarrow> string" where
  "csv_file float_str data =
     writerow header @ concat (map (\<lambda>r. writerow (row_fields float_str r)) data)"

text \<open>
  The lines of a text file as a reader sees them: a line ends at a carriage return
  followed by a line feed, at a lone carriage return or at a lone line feed.
\<close>

fun lines_from :: "string \<Rightarrow> string \<Rightarrow> string list" where
  "lines_from cur [] = (if cur = [] then [] else [cur])"
| "lines_from cur (c # s) =
     (if c = CR then
        (case s of
           [] \<Rightarrow> [cur]
         | c' # s' \<Rightarrow> if c' = LF then cur # lines_from [] s' else cur # lines_from [] s)
      else if c = LF then cur # lines_from [] s
      else lines_from (cur @ [c]) s)"

definition file_lines :: "string \<Rightarrow> string list" where
  "file_lines content = lines_from [] content"

section \<open>The script as a whole\<close>

text \<open>
  Lines 21 to 36: the months of the fixed range, the rows, the file. The result is the
  list \<^verbatim>\<open>data\<close> and the text written to \<^verbatim>\<open>sales_data2.csv\<close>; an exception of
  \<^verbatim>\<open>get_months\<close> ends the script before anything is written.
\<close>

definition script ::
  "(rat \<Rightarrow> string) \<Rightarrow> nat stream \<Rightarrow> (error + row list \<times> string) option" where
  "script float_str rng =
     (case get_months start_date end_date of
        None \<Rightarrow> None
      | Some (Inl e) \<Rightarrow> Some (Inl e)
      | Some (Inr months) \<Rightarrow>
          (let data = generate months rng in Some (Inr (data, csv_file float_str data))))"

text \<open>The header row as the specification prints it.\<close>

definition spec_header_line :: string where
  "spec_header_line = ''month/year, product name, unit price, quantity, sales amount''"

definition written_file :: "(rat \<Rightarrow> string) \<Rightarrow> nat stream \<Rightarrow> string option" where
  "written_file float_str rng =
     (case script float_str rng of Some (Inr (data, content)) \<Rightarrow> Some content | _ \<Rightarrow> None)"

section \<open>Notions used to state the properties\<close>

text \<open>
  The labels the fixed range is expected to give: the twelve months of 2022, 2023 and
  2024 in order, each as its first day.
\<close>

definition months_2022_2024 :: "string list" where
  "months_2022_2024 =
     concat (map (\<lambda>y. map (\<lambda>m. zfill 2 (str_nat m) @ ''/01/'' @ str_nat y) [1..<13])
       [2022, 2023, 2024])"

text \<open>
  The row that one pass of the inner loop body appends, as a function of the generator
  at the start of the pass; the pass consumes two elements of the generator.
\<close>

definition loop_body_row :: "string \<Rightarrow> string \<Rightarrow> nat stream \<Rightarrow> row" where
  "loop_body_row month_v product rng =
     (let unit_price_v = py_round (fst (uniform 5 50 rng)) 2;
          quantity_v = fst (randint 50 500 (stl rng))
      in \<lparr>month_label = month_v, product_name = product, unit_price = unit_price_v,
          quantity = quantity_v,
          sales_amount = py_round (float_mul_int unit_price_v quantity_v) 2\<rparr>)"

text \<open>The two label columns of a row, and the conditions the rows are to meet.\<close>

definition labels :: "row \<Rightarrow> string \<times> string" where
  "labels r = (month_label r, product_name r)"

definition sales_consistent :: "row \<Rightarrow> bool" where
  "sales_consistent r =
     (sales_amount r = py_round (float_mul_int (unit_price r) (quantity r)) 2)"

definition in_ranges :: "row \<Rightarrow> bool" where
  "in_ranges r =
     (5 \<le> unit_price r \<and> unit_price r \<le> 50 \<and> 50 \<le> quantity r \<and> quantity r \<le> 500)"

text \<open>A number that \<^verbatim>\<open>round(x, 2)\<close> gives for some \<open>x\<close> of the price range.\<close>

definition rounded_price :: "rat \<Rightarrow> bool" where
  "rounded_price p = (\<exists>x. 5 \<le> x \<and> x \<le> 50 \<and> p = py_round x 2)"

text \<open>A text without a line break.\<close>

definition break_free :: "string \<Rightarrow> bool" where
  "break_free s = (CR \<notin> set s \<and> LF \<notin> set s)"

section \<open>Properties of the calendar operations\<close>

lemma dim_ge_28: "28 \<le> days_in_month y m"
  by (simp add: days_in_month_def)

lemma dim_le_31: "days_in_month y m \<le> 31"
  by (simp add: days_in_month_def)

lemma add_days_within:
  "day d + n \<le> days_in_month (year d) (month d) \<Longrightarrow>
   add_days d n = Inr (d\<lparr>day := day d + n\<rparr>)"
proof (induction n arbitrary: d)
  case 0
  then show ?case by simp
next
  case (Suc n)
  have nd: "next_day d = Inr (d\<lparr>day := day d + 1\<rparr>)"
    using Suc.prems by (simp add: next_day_def)
  have "add_days (d\<lparr>day := day d + 1\<rparr>) n =
        Inr (d\<lparr>day := day d + 1\<rparr>\<lparr>day := day (d\<lparr>day := day d + 1\<rparr>) + n\<rparr>)"
    by (rule Suc.IH) (use Suc.prems in simp)
  then show ?case using nd by simp
qed

lemma add_days_add:
  "add_days d (a + b) = (case add_days d a of Inl e \<Rightarrow> Inl e | Inr d' \<Rightarrow> add_days d' b)"
  by (induction a arbitrary: d) (auto split: sum.splits)

lemma next_day_last:
  assumes "day d = days_in_month (year d) (month d)"
    and "\<not> (year d = MAXYEAR \<and> month d = 12)"
    and "year d \<le> MAXYEAR" and "month d \<le> 12"
  shows "next_day d = Inr (month_after d)"
  using assms by (simp add: next_day_def month_after_def)

lemma next_day_last_overflow:
  assumes "day d = days_in_month (year d) (month d)" and "year d = MAXYEAR" and "month d = 12"
  shows "next_day d = Inl OverflowError"
  using assms by (simp add: next_day_def)

text \<open>
  From day 28, four days forward: the rest of the month takes \<open>L - 28\<close> of them
  (\<open>L\<close> the length of the month, 28 to 31), one crosses the boundary, and the others stay
  inside the next month, which has at least 28 days.
\<close>

lemma add_days_28_4:
  assumes "day c = 28" and "\<not> (year c = MAXYEAR \<and> month c = 12)"
    and "year c \<le> MAXYEAR" and "month c \<le> 12"
  shows "\<exists>k. 1 \<le> k \<and> k \<le> 4 \<and> add_days c 4 = Inr ((month_after c)\<lparr>day := k\<rparr>)"
proof -
  define L where "L = days_in_month (year c) (month c)"
  have L: "28 \<le> L" "L \<le> 31" unfolding L_def by (rule dim_ge_28, rule dim_le_31)
  define a where "a = L - 28"
  define b where "b = 3 - a"
  have four: "4 = a + (Suc b)" using L by (simp add: a_def b_def)
  have s1: "add_days c a = Inr (c\<lparr>day := L\<rparr>)"
    using add_days_within[of c a] assms(1) L by (simp add: a_def L_def)
  let ?c1 = "c\<lparr>day := L\<rparr>"
  have s2: "next_day ?c1 = Inr (month_after ?c1)"
    by (rule next_day_last) (use assms in \<open>simp_all add: L_def\<close>)
  have ma: "month_after ?c1 = month_after c" by (simp add: month_after_def)
  have s3: "add_days (month_after c) b =
            Inr ((month_after c)\<lparr>day := day (month_after c) + b\<rparr>)"
    by (rule add_days_within)
      (use dim_ge_28[of "year (month_after c)" "month (month_after c)"] in
        \<open>simp add: month_after_def b_def\<close>)
  have d1: "day (month_after c) = 1" by (simp add: month_after_def)
  have "add_days c 4 = add_days ?c1 (Suc b)"
    unfolding four add_days_add s1 by simp
  also have "\<dots> = add_days (month_after c) b"
    using s2 ma by simp
  also have "\<dots> = Inr ((month_after c)\<lparr>day := 1 + b\<rparr>)"
    using s3 d1 by simp
  finally have "add_days c 4 = Inr ((month_after c)\<lparr>day := 1 + b\<rparr>)" .
  moreover have "1 \<le> 1 + b" "1 + b \<le> 4" by (simp_all add: b_def)
  ultimately show ?thesis by blast
qed

lemma add_days_28_4_overflow:
  assumes "day c = 28" and "year c = MAXYEAR" and "month c = 12"
  shows "add_days c 4 = Inl OverflowError"
proof -
  have L: "days_in_month (year c) (month c) = 31" using assms by (simp add: days_in_month_def)
  have four: "4 = 3 + Suc 0" by simp
  have s1: "add_days c 3 = Inr (c\<lparr>day := 31\<rparr>)"
    using add_days_within[of c 3] assms(1) L by simp
  have s2: "next_day (c\<lparr>day := 31\<rparr>) = Inl OverflowError"
    by (rule next_day_last_overflow) (use assms L in simp_all)
  show ?thesis unfolding four add_days_add s1 using s2 by simp
qed

lemma advance_ok:
  assumes "valid d" and "\<not> (year d = MAXYEAR \<and> month d = 12)"
  shows "advance d = Inr (month_after d)"
proof -
  have y: "year d \<le> MAXYEAR" and m: "month d \<le> 12" "1 \<le> month d"
    using assms(1) unfolding valid_def by auto
  have r1: "replace_day d 28 = Inr (d\<lparr>day := 28\<rparr>)"
    using dim_ge_28[of "year d" "month d"] by (simp add: replace_day_def)
  obtain k where k: "1 \<le> k" "k \<le> 4"
    "add_days (d\<lparr>day := 28\<rparr>) 4 = Inr ((month_after (d\<lparr>day := 28\<rparr>))\<lparr>day := k\<rparr>)"
    using add_days_28_4[of "d\<lparr>day := 28\<rparr>"] assms(2) y m by auto
  have ma: "month_after (d\<lparr>day := 28\<rparr>) = month_after d" by (simp add: month_after_def)
  have r3: "replace_day ((month_after d)\<lparr>day := k\<rparr>) 1 = Inr (month_after d)"
    using dim_ge_28[of "year (month_after d)" "month (month_after d)"]
    by (simp add: replace_day_def month_after_def)
  show ?thesis unfolding advance_def r1 using k(3) ma r3 by simp
qed

lemma advance_overflow:
  assumes "year d = MAXYEAR" and "month d = 12"
  shows "advance d = Inl OverflowError"
proof -
  have r1: "replace_day d 28 = Inr (d\<lparr>day := 28\<rparr>)"
    using dim_ge_28[of "year d" "month d"] by (simp add: replace_day_def)
  have "add_days (d\<lparr>day := 28\<rparr>) 4 = Inl OverflowError"
    by (rule add_days_28_4_overflow) (use assms in simp_all)
  then show ?thesis unfolding advance_def r1 by simp
qed

section \<open>Properties of the month enumerator\<close>

lemma add_days_4:
  "add_days d 4 = add_days d (Suc (Suc (Suc (Suc 0))))"
proof -
  have "(4::nat) = Suc (Suc (Suc (Suc 0)))" by simp
  then show ?thesis by (rule arg_cong)
qed

lemma valid_month_after:
  assumes "valid d" "\<not> (year d = MAXYEAR \<and> month d = 12)"
  shows "valid (month_after d)"
  using assms dim_ge_28[of "year (month_after d)" "month (month_after d)"]
  by (auto simp: valid_def month_after_def MINYEAR_def)

lemma month_index_after:
  assumes "valid d"
  shows "month_index (month_after d) = month_index d + 1"
  using assms by (auto simp: valid_def month_after_def month_index_def)

lemma month_index_le: "valid d \<Longrightarrow> month_index d \<le> 12 * MAXYEAR + 11"
  by (auto simp: valid_def month_index_def)

lemma month_index_max: "valid d \<Longrightarrow> month_index d = 12 * MAXYEAR + 11 \<longleftrightarrow> (year d = MAXYEAR \<and> month d = 12)"
  by (auto simp: valid_def month_index_def)

lemma loop_stop: "\<not> dt_less cur e \<Longrightarrow> get_months_loop cur e acc = Some (Inr acc)"
  by (subst get_months_loop.simps) simp

lemma loop_step:
  assumes "dt_less cur e" "valid cur" "\<not> (year cur = MAXYEAR \<and> month cur = 12)"
  shows "get_months_loop cur e acc = get_months_loop (month_after cur) e (acc @ [strftime cur])"
  by (subst get_months_loop.simps) (simp add: assms advance_ok)

lemma loop_overflow:
  assumes "dt_less cur e" "year cur = MAXYEAR" "month cur = 12"
  shows "get_months_loop cur e acc = Some (Inl OverflowError)"
  by (subst get_months_loop.simps) (simp add: assms advance_overflow)

lemma loop_terminates:
  "valid cur \<Longrightarrow> \<exists>r. get_months_loop cur e acc = Some r"
proof (induction "12 * MAXYEAR + 11 - month_index cur" arbitrary: cur acc rule: less_induct)
  case less
  show ?case
  proof (cases "dt_less cur e")
    case False
    then show ?thesis by (simp add: loop_stop)
  next
    case True
    show ?thesis
    proof (cases "year cur = MAXYEAR \<and> month cur = 12")
      case True
      with \<open>dt_less cur e\<close> show ?thesis by (simp add: loop_overflow)
    next
      case False
      have v: "valid (month_after cur)" by (rule valid_month_after[OF less.prems False])
      have "month_index cur \<noteq> 12 * MAXYEAR + 11" using False month_index_max[OF less.prems] by simp
      then have lt: "month_index cur < 12 * MAXYEAR + 11" using month_index_le[OF less.prems] by simp
      have "12 * MAXYEAR + 11 - month_index (month_after cur) < 12 * MAXYEAR + 11 - month_index cur"
        using lt month_index_after[OF less.prems] by simp
      from less.hyps[OF this v] obtain r where
        "get_months_loop (month_after cur) e (acc @ [strftime cur]) = Some r" by blast
      then show ?thesis using loop_step[OF True less.prems False] by simp
    qed
  qed
qed


lemma running_date_0: "running_date cur 0 = cur"
  by (simp add: running_date_def)

lemma running_date_Suc: "running_date cur (Suc k) = running_date (month_after cur) k"
  by (simp add: running_date_def funpow_swap1)

lemma loop_result:
  assumes "valid cur" "get_months_loop cur e acc = Some (Inr ls)"
  shows "\<exists>n. ls = acc @ map (\<lambda>k. strftime (running_date cur k)) [0..<n] \<and>
             (\<forall>k<n. dt_less (running_date cur k) e) \<and>
             \<not> dt_less (running_date cur n) e \<and>
             (\<forall>k\<le>n. valid (running_date cur k))"
  using assms
proof (induction "12 * MAXYEAR + 11 - month_index cur" arbitrary: cur acc rule: less_induct)
  case less
  show ?case
  proof (cases "dt_less cur e")
    case False
    then have "ls = acc" using less.prems(2) by (simp add: loop_stop)
    then have "ls = acc @ map (\<lambda>k. strftime (running_date cur k)) [0..<0] \<and>
             (\<forall>k<0. dt_less (running_date cur k) e) \<and>
             \<not> dt_less (running_date cur 0) e \<and>
             (\<forall>k\<le>0. valid (running_date cur k))"
      using False less.prems(1) by (simp add: running_date_0)
    then show ?thesis by blast
  next
    case True
    have nd: "\<not> (year cur = MAXYEAR \<and> month cur = 12)"
    proof
      assume "year cur = MAXYEAR \<and> month cur = 12"
      then have "get_months_loop cur e acc = Some (Inl OverflowError)"
        using True by (simp add: loop_overflow)
      then show False using less.prems(2) by simp
    qed
    have v: "valid (month_after cur)" by (rule valid_month_after[OF less.prems(1) nd])
    have "month_index cur \<noteq> 12 * MAXYEAR + 11" using nd month_index_max[OF less.prems(1)] by simp
    then have lt: "month_index cur < 12 * MAXYEAR + 11" using month_index_le[OF less.prems(1)] by simp
    have dec: "12 * MAXYEAR + 11 - month_index (month_after cur) < 12 * MAXYEAR + 11 - month_index cur"
      using lt month_index_after[OF less.prems(1)] by simp
    have st: "get_months_loop (month_after cur) e (acc @ [strftime cur]) = Some (Inr ls)"
      using loop_step[OF True less.prems(1) nd] less.prems(2) by simp
    from less.hyps[OF dec v st] obtain n where n:
      "ls = (acc @ [strftime cur]) @ map (\<lambda>k. strftime (running_date (month_after cur) k)) [0..<n]"
      "\<forall>k<n. dt_less (running_date (month_after cur) k) e"
      "\<not> dt_less (running_date (month_after cur) n) e"
      "\<forall>k\<le>n. valid (running_date (month_after cur) k)" by blast
    have a: "ls = acc @ map (\<lambda>k. strftime (running_date cur k)) [0..<Suc n]"
      unfolding map_upt_Suc using n(1) by (simp add: running_date_0 running_date_Suc)
    have b: "\<forall>k<Suc n. dt_less (running_date cur k) e"
    proof (intro allI impI)
      fix k assume "k < Suc n"
      then show "dt_less (running_date cur k) e"
        using n(2) True by (cases k) (simp_all add: running_date_0 running_date_Suc)
    qed
    have c: "\<not> dt_less (running_date cur (Suc n)) e"
      using n(3) by (simp add: running_date_Suc)
    have d: "\<forall>k\<le>Suc n. valid (running_date cur k)"
    proof (intro allI impI)
      fix k assume "k \<le> Suc n"
      then show "valid (running_date cur k)"
        using n(4) less.prems(1) by (cases k) (simp_all add: running_date_0 running_date_Suc)
    qed
    from a b c d show ?thesis by blast
  qed
qed

lemma dt_less_year_month:
  "dt_less a b \<Longrightarrow> year a \<le> year b \<and> (year a = year b \<longrightarrow> month a \<le> month b)"
  by (auto simp: dt_less_def dt_key_def)

lemma loop_error:
  assumes "valid cur" "valid e" "get_months_loop cur e acc = Some (Inl err)"
  shows "err = OverflowError \<and> year e = MAXYEAR \<and> month e = 12"
  using assms(1,3)
proof (induction "12 * MAXYEAR + 11 - month_index cur" arbitrary: cur acc rule: less_induct)
  case less
  show ?case
  proof (cases "dt_less cur e")
    case False
    then show ?thesis using less.prems(2) by (simp add: loop_stop)
  next
    case True
    show ?thesis
    proof (cases "year cur = MAXYEAR \<and> month cur = 12")
      case dec: True
      then have "get_months_loop cur e acc = Some (Inl OverflowError)"
        using True by (simp add: loop_overflow)
      then have 1: "err = OverflowError" using less.prems(2) by simp
      have "year e \<le> MAXYEAR" "month e \<le> 12" using assms(2) by (simp_all add: valid_def)
      then have "year e = MAXYEAR \<and> month e = 12"
        using dt_less_year_month[OF True] dec by auto
      then show ?thesis using 1 by simp
    next
      case nd: False
      have v: "valid (month_after cur)" by (rule valid_month_after[OF less.prems(1) nd])
      have "month_index cur \<noteq> 12 * MAXYEAR + 11" using nd month_index_max[OF less.prems(1)] by simp
      then have lt: "month_index cur < 12 * MAXYEAR + 11" using month_index_le[OF less.prems(1)] by simp
      have dec: "12 * MAXYEAR + 11 - month_index (month_after cur) < 12 * MAXYEAR + 11 - month_index cur"
        using lt month_index_after[OF less.prems(1)] by simp
      have st: "get_months_loop (month_after cur) e (acc @ [strftime cur]) = Some (Inl err)"
        using loop_step[OF True less.prems(1) nd] less.prems(2) by simp
      from less.hyps[OF dec v st] show ?thesis .
    qed
  qed
qed

lemma loop_error_overflow:
  assumes "valid cur" and "get_months_loop cur e acc = Some (Inl err)"
  shows "err = OverflowError"
  using assms
proof (induction "12 * MAXYEAR + 11 - month_index cur" arbitrary: cur acc rule: less_induct)
  case less
  show ?case
  proof (cases "dt_less cur e")
    case False
    then show ?thesis using less.prems(2) by (simp add: loop_stop)
  next
    case True
    show ?thesis
    proof (cases "year cur = MAXYEAR \<and> month cur = 12")
      case dec: True
      then have "get_months_loop cur e acc = Some (Inl OverflowError)"
        using True by (simp add: loop_overflow)
      then show ?thesis using less.prems(2) by simp
    next
      case nd: False
      have v: "valid (month_after cur)" by (rule valid_month_after[OF less.prems(1) nd])
      have "month_index cur \<noteq> 12 * MAXYEAR + 11"
        using nd month_index_max[OF less.prems(1)] by simp
      then have lt: "month_index cur < 12 * MAXYEAR + 11"
        using month_index_le[OF less.prems(1)] by simp
      have dec: "12 * MAXYEAR + 11 - month_index (month_after cur)
                 < 12 * MAXYEAR + 11 - month_index cur"
        using lt month_index_after[OF less.prems(1)] by simp
      have st: "get_months_loop (month_after cur) e (acc @ [strftime cur]) = Some (Inl err)"
        using loop_step[OF True less.prems(1) nd] less.prems(2) by simp
      from less.hyps[OF dec v st] show ?thesis .
    qed
  qed
qed

lemma str_nat_small: "n < 10 \<Longrightarrow> str_nat n = [digit_char n]"
  by (simp add: str_nat.simps)

lemma length_str_nat_ge: "1 \<le> length (str_nat n)"
  by (subst str_nat.simps) simp

lemma length_str_nat_100: "n < 100 \<Longrightarrow> length (str_nat n) \<le> 2"
  by (subst str_nat.simps) (simp add: str_nat_small)

lemma length_str_nat_4:
  assumes "1000 \<le> n" and "n < 10000"
  shows "length (str_nat n) = 4"
proof -
  have a: "\<not> n < 10" "\<not> n div 10 < 10" "\<not> n div 10 div 10 < 10" "n div 10 div 10 div 10 < 10"
    using assms by (simp_all add: div_less_iff_less_mult less_eq_div_iff_mult_less_eq)
  have "str_nat n = str_nat (n div 10 div 10 div 10) @
          [digit_char (n div 10 div 10), digit_char (n div 10), digit_char n]"
    using a(1,2,3)
    by (simp add: str_nat.simps[of n] str_nat.simps[of "n div 10"]
        str_nat.simps[of "n div 10 div 10"])
  then show ?thesis using a(4) by (simp add: str_nat_small)
qed

lemma length_zfill: "length s \<le> w \<Longrightarrow> length (zfill w s) = w"
  by (simp add: zfill_def)

lemma strftime_fields:
  assumes "valid d"
  shows "month_field (strftime d) = zfill 2 (str_nat (month d))"
    and "day_field (strftime d) = zfill 2 (str_nat (day d))"
    and "year_field (strftime d) = str_nat (year d)"
    and "strftime d ! 2 = CHR ''/''" and "strftime d ! 5 = CHR ''/''"
    and "1000 \<le> year d \<Longrightarrow> length (strftime d) = 10"
    and "1000 \<le> year d \<Longrightarrow> length (year_field (strftime d)) = 4"
proof -
  have "day d \<le> 31" using assms dim_le_31[of "year d" "month d"] by (simp add: valid_def)
  then have ld: "length (zfill 2 (str_nat (day d))) = 2"
    by (intro length_zfill length_str_nat_100) simp
  have lm: "length (zfill 2 (str_nat (month d))) = 2"
    by (intro length_zfill length_str_nat_100) (use assms in \<open>simp add: valid_def\<close>)
  have ly: "length (str_nat (year d)) = 4" if "1000 \<le> year d"
    by (rule length_str_nat_4[OF that]) (use assms in \<open>simp add: valid_def MAXYEAR_def\<close>)
  show "month_field (strftime d) = zfill 2 (str_nat (month d))"
    using lm by (simp add: month_field_def strftime_def)
  show "day_field (strftime d) = zfill 2 (str_nat (day d))"
    using lm ld by (simp add: day_field_def strftime_def)
  show y: "year_field (strftime d) = str_nat (year d)"
    using lm ld by (simp add: year_field_def strftime_def)
  show "strftime d ! 2 = CHR ''/''" using lm by (simp add: strftime_def nth_append)
  show "strftime d ! 5 = CHR ''/''" using lm ld by (simp add: strftime_def nth_append)
  show "length (strftime d) = 10" if "1000 \<le> year d"
    using lm ld ly[OF that] by (simp add: strftime_def)
  show "length (year_field (strftime d)) = 4" if "1000 \<le> year d"
    using ly[OF that] y by simp
qed

lemma running_date_Suc': "running_date cur (Suc k) = month_after (running_date cur k)"
  by (simp add: running_date_def)

lemma day_running_date: "0 < k \<Longrightarrow> day (running_date cur k) = 1"
  by (cases k) (simp_all add: running_date_Suc' month_after_def)

lemma month_index_running_date:
  "(\<forall>j<k. valid (running_date cur j)) \<Longrightarrow>
   month_index (running_date cur k) = month_index cur + k"
proof (induction k)
  case 0
  then show ?case by (simp add: running_date_0)
next
  case (Suc k)
  have "valid (running_date cur k)" using Suc.prems by simp
  then have "month_index (running_date cur (Suc k)) = month_index (running_date cur k) + 1"
    unfolding running_date_Suc' by (rule month_index_after)
  moreover have "month_index (running_date cur k) = month_index cur + k"
    by (rule Suc.IH) (use Suc.prems in simp)
  ultimately show ?case by simp
qed

lemma dt_less_month_after:
  assumes "valid d"
  shows "dt_less d (month_after d)"
  using assms by (auto simp: dt_less_def dt_key_def month_after_def valid_def)

lemma zfill_2_str_nat_1: "zfill 2 (str_nat 1) = ''01''" "zfill 2 (str_nat (Suc 0)) = ''01''"
  by (simp_all add: zfill_def str_nat_small digit_char_def)

lemma get_months_15:
  "get_months (mk_date 2022 1 15) (mk_date 2022 3 1) = Some (Inr [''01/15/2022'', ''02/01/2022''])"
  by (simp add: get_months_def mk_date_def get_months_loop.simps
      dt_less_def dt_key_def advance_def replace_day_def days_in_month_def is_leap_def add_days_4
      next_day_def MAXYEAR_def strftime_def zfill_def str_nat.simps digit_char_def)

lemma months_fixed_range: "get_months start_date end_date = Some (Inr
 [''01/01/2022'', ''02/01/2022'', ''03/01/2022'', ''04/01/2022'',
        ''05/01/2022'', ''06/01/2022'', ''07/01/2022'', ''08/01/2022'',
        ''09/01/2022'', ''10/01/2022'', ''11/01/2022'', ''12/01/2022'',
        ''01/01/2023'', ''02/01/2023'', ''03/01/2023'', ''04/01/2023'',
        ''05/01/2023'', ''06/01/2023'', ''07/01/2023'', ''08/01/2023'',
        ''09/01/2023'', ''10/01/2023'', ''11/01/2023'', ''12/01/2023'',
        ''01/01/2024'', ''02/01/2024'', ''03/01/2024'', ''04/01/2024'',
        ''05/01/2024'', ''06/01/2024'', ''07/01/2024'', ''08/01/2024'',
        ''09/01/2024'', ''10/01/2024'', ''11/01/2024'', ''12/01/2024''])"
  by (simp add: get_months_def start_date_def end_date_def mk_date_def get_months_loop.simps
      dt_less_def dt_key_def advance_def replace_day_def days_in_month_def is_leap_def add_days_4
      next_day_def MAXYEAR_def strftime_def zfill_def str_nat.simps digit_char_def)

section \<open>Properties of the library calls\<close>

lemma rhe_cases: "rhe y = \<lfloor>y\<rfloor> \<or> rhe y = \<lfloor>y\<rfloor> + 1"
  by (simp add: rhe_def Let_def)

lemma rhe_of_int: "rhe (of_int k) = k"
  by (simp add: rhe_def)

lemma rhe_ge:
  assumes "of_int k \<le> y"
  shows "k \<le> rhe y"
proof -
  have "k \<le> \<lfloor>y\<rfloor>" using assms by (simp add: le_floor_iff)
  then show ?thesis using rhe_cases[of y] by linarith
qed

lemma rhe_le:
  assumes "y \<le> of_int k"
  shows "rhe y \<le> k"
proof (cases "y = of_int k")
  case True
  then show ?thesis by (simp add: rhe_of_int)
next
  case False
  then have "y < of_int k" using assms by simp
  then have "\<lfloor>y\<rfloor> < k" by (simp add: floor_less_iff)
  then show ?thesis using rhe_cases[of y] by auto
qed

lemma bit_length_le: "n < 2 ^ k \<Longrightarrow> bit_length n \<le> k"
proof (induction k arbitrary: n)
  case 0
  then show ?case by (simp add: bit_length.simps)
next
  case (Suc k)
  show ?case
  proof (cases "n = 0")
    case True
    then show ?thesis by (simp add: bit_length.simps)
  next
    case False
    have "n div 2 < 2 ^ k" using Suc.prems by simp
    then have "bit_length (n div 2) \<le> k" by (rule Suc.IH)
    then show ?thesis using False by (subst bit_length.simps) simp
  qed
qed

lemma ilog2_le_52:
  assumes "x < 2 ^ 53"
  shows "ilog2 x \<le> 52"
proof (cases "1 \<le> x")
  case True
  have "\<lfloor>x\<rfloor> < 2 ^ 53" using assms by (simp add: floor_less_iff)
  then have "nat \<lfloor>x\<rfloor> < 2 ^ 53" using True by (simp add: nat_less_iff)
  then have "bit_length (nat \<lfloor>x\<rfloor>) \<le> 53" by (rule bit_length_le)
  then show ?thesis using True by (simp add: ilog2_def)
next
  case False
  then show ?thesis by (simp add: ilog2_def)
qed

lemma fl_scaled:
  assumes "\<bar>x\<bar> < 2 ^ 53" "x \<noteq> 0"
  shows "\<exists>n. fl x = of_int (rhe (x * 2 ^ n)) / 2 ^ n"
proof -
  have "max (ilog2 \<bar>x\<bar>) (- 1022) \<le> 52"
    using ilog2_le_52[OF assms(1)] by simp
  then show ?thesis using assms(2) by (auto simp: fl_def Let_def)
qed

lemma fl_between:
  assumes "of_int a \<le> x" "x \<le> of_int b" "\<bar>x\<bar> < 2 ^ 53"
  shows "of_int a \<le> fl x \<and> fl x \<le> of_int b"
proof (cases "x = 0")
  case True
  then show ?thesis using assms by (simp add: fl_def)
next
  case False
  from fl_scaled[OF assms(3) False] obtain n where
    n: "fl x = of_int (rhe (x * 2 ^ n)) / 2 ^ n" by blast
  have "of_int (a * 2 ^ n) \<le> x * 2 ^ n" using assms(1) by simp
  then have lo: "a * 2 ^ n \<le> rhe (x * 2 ^ n)" by (rule rhe_ge)
  have "x * 2 ^ n \<le> of_int (b * 2 ^ n)" using assms(2) by simp
  then have hi: "rhe (x * 2 ^ n) \<le> b * 2 ^ n" by (rule rhe_le)
  have "(of_int a :: rat) * 2 ^ n \<le> of_int (rhe (x * 2 ^ n))"
    using lo by (metis of_int_le_iff of_int_mult of_int_numeral of_int_power)
  then have 1: "of_int a \<le> fl x" unfolding n by (simp add: pos_le_divide_eq)
  have "(of_int (rhe (x * 2 ^ n)) :: rat) \<le> of_int b * 2 ^ n"
    using hi by (metis of_int_le_iff of_int_mult of_int_numeral of_int_power)
  then have 2: "fl x \<le> of_int b" unfolding n by (simp add: pos_divide_le_eq)
  show ?thesis using 1 2 by simp
qed

lemma fl_of_int:
  assumes "\<bar>i\<bar> < 2 ^ 53"
  shows "fl (of_int i) = of_int i"
proof -
  have "\<bar>of_int i :: rat\<bar> < 2 ^ 53" using assms
    by (metis of_int_abs of_int_less_iff of_int_numeral of_int_power)
  then have "of_int i \<le> fl (of_int i) \<and> fl (of_int i) \<le> of_int i"
    by (intro fl_between) simp_all
  then show ?thesis by simp
qed

lemma random_range:
  "0 \<le> fst (random rng) \<and> fst (random rng) < 1"
  by (simp add: random_def)

lemma uniform_5_50:
  "5 \<le> fst (uniform 5 50 rng) \<and> fst (uniform 5 50 rng) \<le> 50"
proof -
  define r where "r = fst (random rng)"
  have r: "0 \<le> r" "r < 1" using random_range[of rng] by (simp_all add: r_def)
  have f45: "float_of_int 45 = 45" and f5: "float_of_int 5 = 5"
    using fl_of_int[of 45] fl_of_int[of 5] by (simp_all add: float_of_int_def)
  define t where "t = fl (45 * r)"
  have "of_int 0 \<le> fl (45 * r) \<and> fl (45 * r) \<le> of_int 45"
    by (rule fl_between) (use r in simp_all)
  then have t: "0 \<le> t" "t \<le> 45" by (simp_all add: t_def)
  have "of_int 5 \<le> fl (5 + t) \<and> fl (5 + t) \<le> of_int 50"
    by (rule fl_between) (use t in simp_all)
  moreover have "fst (uniform 5 50 rng) = fl (5 + t)"
    by (simp add: uniform_def r_def t_def int_add_float_def int_mul_float_def f45 f5
        split: prod.split)
  ultimately show ?thesis by simp
qed

lemma py_round_2_between:
  assumes "of_int a \<le> x" "x \<le> of_int b" "\<bar>a\<bar> < 2 ^ 52" "\<bar>b\<bar> < 2 ^ 52"
  shows "of_int a \<le> py_round x 2 \<and> py_round x 2 \<le> of_int b"
proof -
  define k where "k = rhe (x * 10 ^ 2)"
  have "of_int (a * 100) \<le> x * 10 ^ 2" using assms(1) by simp
  then have lo: "a * 100 \<le> k" unfolding k_def by (rule rhe_ge)
  have "x * 10 ^ 2 \<le> of_int (b * 100)" using assms(2) by simp
  then have hi: "k \<le> b * 100" unfolding k_def by (rule rhe_le)
  define y :: rat where "y = of_int k / 10 ^ 2"
  have "(of_int (a * 100) :: rat) \<le> of_int k" using lo by (simp only: of_int_le_iff)
  then have y1: "of_int a \<le> y" by (simp add: y_def)
  have "(of_int k :: rat) \<le> of_int (b * 100)" using hi by (simp only: of_int_le_iff)
  then have y2: "y \<le> of_int b" by (simp add: y_def)
  have "(of_int \<bar>a\<bar> :: rat) < 2 ^ 52" "(of_int \<bar>b\<bar> :: rat) < 2 ^ 52" using assms(3,4)
    by (metis of_int_less_iff of_int_numeral of_int_power)+
  then have "\<bar>y\<bar> < 2 ^ 53" using y1 y2 by (simp add: abs_if split: if_splits)
  then have "of_int a \<le> fl y \<and> fl y \<le> of_int b"
    using y1 y2 by (intro fl_between)
  then show ?thesis by (simp add: py_round_def k_def y_def)
qed

subsection \<open>Known values of the rounding\<close>

text \<open>
  The model gives the numbers the machine gives: the float written \<^verbatim>\<open>0.1\<close> is
  \<open>3602879701896397 / 2^55\<close>, and \<^verbatim>\<open>round(2.675, 2)\<close> is the float \<^verbatim>\<open>2.67\<close>, because the
  float nearest to 2.675 lies below it.
\<close>

lemma bit_length_numeral:
  "bit_length 0 = 0"
  "bit_length (Suc 0) = 1"
  "bit_length 1 = 1"
  "bit_length (numeral (Num.Bit0 n)) = Suc (bit_length (numeral n))"
  "bit_length (numeral (Num.Bit1 n)) = Suc (bit_length (numeral n))"
proof -
  show "bit_length 0 = 0" by (simp add: bit_length.simps)
  show "bit_length (Suc 0) = 1" by (simp add: bit_length.simps)
  then show "bit_length 1 = 1" by simp
  have "numeral (Num.Bit0 n) div 2 = (numeral n :: nat)" by simp
  then show "bit_length (numeral (Num.Bit0 n)) = Suc (bit_length (numeral n))"
    by (subst bit_length.simps) simp
  have "numeral (Num.Bit1 n) div 2 = (numeral n :: nat)" by simp
  then show "bit_length (numeral (Num.Bit1 n)) = Suc (bit_length (numeral n))"
    by (subst bit_length.simps) simp
qed

lemma rhe_below_half:
  assumes "of_int k \<le> y" and "y < of_int k + 1 / 2"
  shows "rhe y = k"
proof -
  have "\<lfloor>y\<rfloor> = k" by (rule floor_unique) (use assms in simp_all)
  then show ?thesis using assms by (simp add: rhe_def Let_def)
qed

lemma rhe_above_half:
  assumes "of_int k + 1 / 2 < y" and "y < of_int k + 1"
  shows "rhe y = k + 1"
proof -
  have "\<lfloor>y\<rfloor> = k" by (rule floor_unique) (use assms in simp_all)
  then show ?thesis using assms by (simp add: rhe_def Let_def)
qed

lemma fl_eqI:
  assumes "ilog2 \<bar>x\<bar> = e" and "- 1022 \<le> e" and "e \<le> 52" and "x \<noteq> 0"
    and "rhe (x * 2 ^ nat (52 - e)) = k"
  shows "fl x = of_int k / 2 ^ nat (52 - e)"
  using assms by (simp add: fl_def Let_def max_def)

lemma fl_tenth: "fl (1 / 10) = 3602879701896397 / 36028797018963968"
proof -
  have "fl (1 / 10) = of_int 7205759403792794 / 2 ^ nat (52 - (- 4))"
  proof (rule fl_eqI)
    show "ilog2 \<bar>1 / 10\<bar> = - 4" by (simp add: ilog2_def bit_length_numeral)
    have "rhe (1 / 10 * 2 ^ 56) = 7205759403792793 + 1"
      by (rule rhe_above_half) simp_all
    then show "rhe (1 / 10 * 2 ^ nat (52 - (- 4))) = 7205759403792794" by simp
  qed simp_all
  then show ?thesis by simp
qed

lemma fl_2675: "fl (2675 / 1000) = 3011782250804019 / 1125899906842624"
proof -
  have "fl (2675 / 1000) = of_int 6023564501608038 / 2 ^ nat (52 - 1)"
  proof (rule fl_eqI)
    have "\<lfloor>2675 / 1000 :: rat\<rfloor> = 2" by (rule floor_unique) simp_all
    then show "ilog2 \<bar>2675 / 1000\<bar> = 1" by (simp add: ilog2_def bit_length_numeral)
    have "rhe (2675 / 1000 * 2 ^ 51) = 6023564501608038"
      by (rule rhe_below_half) simp_all
    then show "rhe (2675 / 1000 * 2 ^ nat (52 - 1)) = 6023564501608038" by simp
  qed simp_all
  then show ?thesis by simp
qed

lemma fl_267: "fl (267 / 100) = 1503076375634903 / 562949953421312"
proof -
  have "fl (267 / 100) = of_int 6012305502539612 / 2 ^ nat (52 - 1)"
  proof (rule fl_eqI)
    have "\<lfloor>267 / 100 :: rat\<rfloor> = 2" by (rule floor_unique) simp_all
    then show "ilog2 \<bar>267 / 100\<bar> = 1" by (simp add: ilog2_def bit_length_numeral)
    have "rhe (267 / 100 * 2 ^ 51) = 6012305502539612"
      by (rule rhe_below_half) simp_all
    then show "rhe (267 / 100 * 2 ^ nat (52 - 1)) = 6012305502539612" by simp
  qed simp_all
  then show ?thesis by simp
qed

lemma py_round_2675: "py_round (fl (2675 / 1000)) 2 = fl (267 / 100)"
proof -
  have "rhe (3011782250804019 / 1125899906842624 * 10 ^ 2) = 267"
    by (rule rhe_below_half) simp_all
  then have "py_round (3011782250804019 / 1125899906842624) 2 = fl (267 / 100)"
    by (simp add: py_round_def)
  then show ?thesis by (simp only: fl_2675)
qed

section \<open>Evaluations of the month enumerator\<close>

lemma valid_mk_date:
  "valid (mk_date y m d) \<longleftrightarrow>
   1 \<le> y \<and> y \<le> 9999 \<and> 1 \<le> m \<and> m \<le> 12 \<and> 1 \<le> d \<and> d \<le> days_in_month y m"
  by (simp add: valid_def mk_date_def MINYEAR_def MAXYEAR_def)

lemma get_months_december_9999:
  "get_months (mk_date 9999 12 1) (mk_date 9999 12 31) = Some (Inl OverflowError)"
proof -
  have "dt_less (mk_date 9999 12 1) (mk_date 9999 12 31)"
    by (simp add: dt_less_def dt_key_def mk_date_def)
  then show ?thesis
    unfolding get_months_def by (rule loop_overflow) (simp_all add: mk_date_def MAXYEAR_def)
qed

section \<open>Properties of the row synthesizer\<close>

lemma randint_50_500:
  "50 \<le> fst (randint 50 500 rng) \<and> fst (randint 50 500 rng) \<le> 500"
proof -
  have "shd rng mod 451 < 451" by simp
  then show ?thesis by (simp add: randint_def)
qed

lemma stl_uniform: "snd (uniform a b rng) = stl rng"
  by (simp add: uniform_def random_def)

lemma stl_randint: "snd (randint a b rng) = stl rng"
  by (simp add: randint_def)

lemma product_loop_Cons:
  "product_loop m (p # ps) data rng =
   product_loop m ps (data @ [loop_body_row m p rng]) (stl (stl rng))"
proof -
  obtain u r1 where u: "uniform 5 50 rng = (u, r1)" by (cases "uniform 5 50 rng")
  obtain q r2 where q: "randint 50 500 r1 = (q, r2)" by (cases "randint 50 500 r1")
  have r1: "r1 = stl rng" using stl_uniform[of 5 50 rng] u by simp
  have r2: "r2 = stl (stl rng)" using stl_randint[of 50 500 r1] q r1 by simp
  have "fst (uniform 5 50 rng) = u" "fst (randint 50 500 (stl rng)) = q"
    using u q r1 by simp_all
  then show ?thesis using u q r2 by (simp add: loop_body_row_def Let_def)
qed

lemma loop_body_row_labels: "labels (loop_body_row m p rng) = (m, p)"
  by (simp add: loop_body_row_def labels_def Let_def)

lemma loop_body_row_sales: "sales_consistent (loop_body_row m p rng)"
  by (simp add: loop_body_row_def sales_consistent_def Let_def)

lemma loop_body_row_price:
  "5 \<le> unit_price (loop_body_row m p rng) \<and> unit_price (loop_body_row m p rng) \<le> 50 \<and>
   rounded_price (unit_price (loop_body_row m p rng))"
proof -
  define x where "x = fst (uniform 5 50 rng)"
  have x: "5 \<le> x" "x \<le> 50" using uniform_5_50[of rng] by (simp_all add: x_def)
  have "of_int 5 \<le> py_round x 2 \<and> py_round x 2 \<le> of_int 50"
    by (rule py_round_2_between) (use x in simp_all)
  moreover have "unit_price (loop_body_row m p rng) = py_round x 2"
    by (simp add: loop_body_row_def Let_def x_def)
  ultimately show ?thesis using x unfolding rounded_price_def by auto
qed

lemma loop_body_row_ranges: "in_ranges (loop_body_row m p rng)"
  using loop_body_row_price[of m p rng] randint_50_500[of "stl rng"]
  by (simp add: in_ranges_def loop_body_row_def Let_def)

lemma product_loop_labels:
  "map labels (fst (product_loop m ps data rng)) = map labels data @ map (Pair m) ps"
proof (induction ps arbitrary: data rng)
  case Nil
  then show ?case by simp
next
  case (Cons p ps)
  show ?case unfolding product_loop_Cons Cons.IH by (simp add: loop_body_row_labels)
qed

lemma product_loop_snd: "snd (product_loop m ps data rng) = sdrop (2 * length ps) rng"
proof (induction ps arbitrary: data rng)
  case Nil
  then show ?case by simp
next
  case (Cons p ps)
  show ?case unfolding product_loop_Cons Cons.IH by simp
qed

lemma product_loop_inv:
  assumes "\<forall>r\<in>set data. P r" and "\<And>p g. P (loop_body_row m p g)"
  shows "\<forall>r\<in>set (fst (product_loop m ps data rng)). P r"
  using assms(1)
proof (induction ps arbitrary: data rng)
  case Nil
  then show ?case by simp
next
  case (Cons p ps)
  have "\<forall>r\<in>set (data @ [loop_body_row m p rng]). P r"
    using Cons.prems assms(2) by simp
  then show ?case unfolding product_loop_Cons by (rule Cons.IH)
qed

lemma product_loop_keeps: "set data \<subseteq> set (fst (product_loop m ps data rng))"
proof (induction ps arbitrary: data rng)
  case Nil
  then show ?case by simp
next
  case (Cons p ps)
  have "set (data @ [loop_body_row m p rng]) \<subseteq>
        set (fst (product_loop m ps (data @ [loop_body_row m p rng]) (stl (stl rng))))"
    by (rule Cons.IH)
  then show ?case unfolding product_loop_Cons by simp
qed

lemma month_loop_Cons:
  "month_loop (m # ms) prods data rng =
   month_loop ms prods (fst (product_loop m prods data rng)) (snd (product_loop m prods data rng))"
  by (simp add: case_prod_beta)

lemma month_loop_labels:
  "map labels (fst (month_loop ms prods data rng)) =
   map labels data @ concat (map (\<lambda>m. map (Pair m) prods) ms)"
proof (induction ms arbitrary: data rng)
  case Nil
  then show ?case by simp
next
  case (Cons m ms)
  show ?case unfolding month_loop_Cons Cons.IH product_loop_labels by simp
qed

lemma month_loop_inv:
  assumes "\<forall>r\<in>set data. P r" and "\<And>m p g. P (loop_body_row m p g)"
  shows "\<forall>r\<in>set (fst (month_loop ms prods data rng)). P r"
  using assms(1)
proof (induction ms arbitrary: data rng)
  case Nil
  then show ?case by simp
next
  case (Cons m ms)
  have "\<forall>r\<in>set (fst (product_loop m prods data rng)). P r"
    using Cons.prems assms(2) by (rule product_loop_inv)
  then show ?case unfolding month_loop_Cons by (rule Cons.IH)
qed

lemma month_loop_keeps: "set data \<subseteq> set (fst (month_loop ms prods data rng))"
proof (induction ms arbitrary: data rng)
  case Nil
  then show ?case by simp
next
  case (Cons m ms)
  have "set data \<subseteq> set (fst (product_loop m prods data rng))" by (rule product_loop_keeps)
  also have "\<dots> \<subseteq> set (fst (month_loop ms prods (fst (product_loop m prods data rng))
                      (snd (product_loop m prods data rng))))"
    by (rule Cons.IH)
  finally show ?case unfolding month_loop_Cons .
qed

lemma products_eq:
  "products = [''Product 1'', ''Product 2'', ''Product 3'', ''Product 4'', ''Product 5'',
     ''Product 6'', ''Product 7'', ''Product 8'', ''Product 9'', ''Product 10'',
     ''Product 11'', ''Product 12'', ''Product 13'', ''Product 14'', ''Product 15'']"
  by (simp add: products_def upt_rec str_nat.simps digit_char_def)

lemma length_products: "length products = 15"
  by (simp add: products_def)

lemma generate_labels:
  "map labels (generate months rng) = concat (map (\<lambda>m. map (Pair m) products) months)"
  by (simp add: generate_def month_loop_labels)

lemma length_concat_const:
  "length (concat (map (\<lambda>m. map (f m) ps) ms)) = length ms * length ps"
  by (induction ms) simp_all

lemma length_generate: "length (generate months rng) = length months * 15"
proof -
  have "length (generate months rng) = length (map labels (generate months rng))" by simp
  also have "\<dots> = length months * length products"
    unfolding generate_labels by (rule length_concat_const)
  finally show ?thesis by (simp add: length_products)
qed

lemma generate_inv:
  assumes "\<And>m p g. P (loop_body_row m p g)"
  shows "\<forall>r\<in>set (generate months rng). P r"
  unfolding generate_def by (rule month_loop_inv) (simp_all add: assms)

lemma generate_first:
  "loop_body_row m ''Product 1'' rng \<in> set (generate (m # ms) rng)"
proof -
  obtain ps where ps: "products = ''Product 1'' # ps" by (simp add: products_eq)
  let ?r = "loop_body_row m ''Product 1'' rng"
  have "?r \<in> set ([] @ [?r])" by simp
  also have "\<dots> \<subseteq> set (fst (product_loop m products [] rng))"
    unfolding ps product_loop_Cons by (rule product_loop_keeps)
  also have "\<dots> \<subseteq> set (generate (m # ms) rng)"
    unfolding generate_def month_loop_Cons by (rule month_loop_keeps)
  finally show ?thesis .
qed

lemma months_2022_2024_eq:
  "months_2022_2024 =
   [''01/01/2022'', ''02/01/2022'', ''03/01/2022'', ''04/01/2022'',
    ''05/01/2022'', ''06/01/2022'', ''07/01/2022'', ''08/01/2022'',
    ''09/01/2022'', ''10/01/2022'', ''11/01/2022'', ''12/01/2022'',
    ''01/01/2023'', ''02/01/2023'', ''03/01/2023'', ''04/01/2023'',
    ''05/01/2023'', ''06/01/2023'', ''07/01/2023'', ''08/01/2023'',
    ''09/01/2023'', ''10/01/2023'', ''11/01/2023'', ''12/01/2023'',
    ''01/01/2024'', ''02/01/2024'', ''03/01/2024'', ''04/01/2024'',
    ''05/01/2024'', ''06/01/2024'', ''07/01/2024'', ''08/01/2024'',
    ''09/01/2024'', ''10/01/2024'', ''11/01/2024'', ''12/01/2024'']"
  by (simp add: months_2022_2024_def upt_rec zfill_def str_nat.simps digit_char_def)

lemma get_months_2022_2024: "get_months start_date end_date = Some (Inr months_2022_2024)"
  unfolding months_2022_2024_eq by (rule months_fixed_range)

lemma length_months_2022_2024: "length months_2022_2024 = 36"
  by (simp add: months_2022_2024_def)

lemma script_eq:
  "script float_str rng =
   Some (Inr (generate months_2022_2024 rng,
              csv_file float_str (generate months_2022_2024 rng)))"
  by (simp add: script_def get_months_2022_2024 Let_def)

section \<open>Properties of the serializer\<close>

lemma break_free_append: "break_free (a @ b) \<longleftrightarrow> break_free a \<and> break_free b"
  by (auto simp: break_free_def)

lemma break_free_csv_field:
  assumes "break_free s"
  shows "break_free (csv_field s)"
proof -
  have "set (concat (map (\<lambda>c. if c = DQUOTE then [DQUOTE, DQUOTE] else [c]) s)) \<subseteq> set s \<union> {DQUOTE}"
    by (induction s) auto
  moreover have "DQUOTE \<noteq> CR" "DQUOTE \<noteq> LF" by (simp_all add: DQUOTE_def CR_def LF_def)
  ultimately show ?thesis using assms by (auto simp: csv_field_def break_free_def)
qed

lemma break_free_join_fields:
  "(\<forall>f\<in>set fs. break_free f) \<Longrightarrow> break_free (join_fields fs)"
proof (induction fs rule: join_fields.induct)
  case 1
  then show ?case by (simp add: break_free_def)
next
  case (2 f)
  then show ?case by simp
next
  case (3 f g fs)
  have "break_free '',''" by (simp add: break_free_def CR_def LF_def)
  moreover have "break_free f" "break_free (join_fields (g # fs))" using 3 by simp_all
  ultimately have "break_free (f @ '','' @ join_fields (g # fs))"
    by (simp only: break_free_append)
  then show ?case by simp
qed

lemma break_free_record_text:
  assumes "\<forall>f\<in>set fs. break_free f"
  shows "break_free (record_text fs)"
proof (cases "fs = [[]]")
  case True
  then show ?thesis by (simp add: record_text_def break_free_def DQUOTE_def CR_def LF_def)
next
  case False
  have "\<forall>f\<in>set (map csv_field fs). break_free f"
    using assms by (simp add: break_free_csv_field)
  then have "break_free (join_fields (map csv_field fs))" by (rule break_free_join_fields)
  then show ?thesis using False by (simp add: record_text_def)
qed

lemma lines_from_line:
  "break_free l \<Longrightarrow> lines_from cur (l @ CR # LF # rest) = (cur @ l) # lines_from [] rest"
proof (induction l arbitrary: cur)
  case Nil
  then show ?case by simp
next
  case (Cons c l)
  have c: "c \<noteq> CR" "c \<noteq> LF" and l: "break_free l"
    using Cons.prems by (auto simp: break_free_def)
  show ?case using c Cons.IH[OF l, of "cur @ [c]"] by simp
qed

lemma lines_from_records:
  "(\<forall>l\<in>set ls. break_free l) \<Longrightarrow>
   lines_from [] (concat (map (\<lambda>l. l @ lineterminator) ls)) = ls"
proof (induction ls)
  case Nil
  then show ?case by simp
next
  case (Cons l ls)
  have "lines_from [] (l @ CR # LF # concat (map (\<lambda>l. l @ lineterminator) ls)) =
        ([] @ l) # lines_from [] (concat (map (\<lambda>l. l @ lineterminator) ls))"
    by (rule lines_from_line) (use Cons.prems in simp)
  then show ?case using Cons by (simp add: lineterminator_def)
qed

lemma csv_file_records:
  "csv_file float_str data =
   concat (map (\<lambda>l. l @ lineterminator)
     (record_text header # map (\<lambda>r. record_text (row_fields float_str r)) data))"
  by (simp add: csv_file_def writerow_def comp_def)

lemma record_text_header:
  "record_text header = ''month/year,product name,unit price,quantity,sales amount''"
  by (simp add: record_text_def header_def csv_field_def csv_special_def DQUOTE_def CR_def LF_def)

lemma digit_char_in: "digit_char n \<in> set ''0123456789''"
proof -
  have "n mod 10 < length ''0123456789''" by simp
  then show ?thesis unfolding digit_char_def by (rule nth_mem)
qed

lemma str_nat_digits: "set (str_nat n) \<subseteq> set ''0123456789''"
proof (induction n rule: str_nat.induct)
  case (1 n)
  show ?case
  proof (cases "n < 10")
    case True
    then show ?thesis using digit_char_in[of n] by (subst str_nat.simps) simp
  next
    case False
    then show ?thesis using 1 digit_char_in[of n] by (subst str_nat.simps) simp
  qed
qed

lemma break_free_str_nat: "break_free (str_nat n)"
  using str_nat_digits[of n] by (auto simp: break_free_def CR_def LF_def)

lemma break_free_str_int: "break_free (str_int i)"
  using break_free_str_nat by (simp add: str_int_def break_free_append) (simp add: break_free_def CR_def LF_def)

lemma break_free_products: "\<forall>p\<in>set products. break_free p"
  by (simp add: products_eq break_free_def CR_def LF_def)

lemma break_free_months: "\<forall>m\<in>set months_2022_2024. break_free m"
  by (simp add: months_2022_2024_eq break_free_def CR_def LF_def)

lemma generate_label_sets:
  assumes "r \<in> set (generate months rng)"
  shows "month_label r \<in> set months \<and> product_name r \<in> set products"
proof -
  have "labels r \<in> set (map labels (generate months rng))" using assms by simp
  then have "labels r \<in> set (concat (map (\<lambda>m. map (Pair m) products) months))"
    by (simp only: generate_labels)
  then show ?thesis by (auto simp: labels_def)
qed

lemma file_lines_csv_file:
  assumes fs: "\<forall>x. break_free (float_str x)"
    and ms: "\<forall>m\<in>set months. break_free m"
  shows "file_lines (csv_file float_str (generate months rng)) =
         record_text header #
         map (\<lambda>r. record_text (row_fields float_str r)) (generate months rng)"
proof -
  let ?data = "generate months rng"
  have h: "break_free (record_text header)"
    by (simp add: record_text_header break_free_def CR_def LF_def)
  have r: "break_free (record_text (row_fields float_str r))" if "r \<in> set ?data" for r
  proof (rule break_free_record_text)
    have "break_free (month_label r)" "break_free (product_name r)"
      using generate_label_sets[OF that] ms break_free_products by blast+
    then show "\<forall>f\<in>set (row_fields float_str r). break_free f"
      using fs by (simp add: row_fields_def break_free_str_int)
  qed
  have "\<forall>l\<in>set (record_text header # map (\<lambda>r. record_text (row_fields float_str r)) ?data).
          break_free l"
    using h r by auto
  then show ?thesis unfolding file_lines_def csv_file_records by (rule lines_from_records)
qed

lemma year_running_date_ge: "year start \<le> year (running_date start k)"
proof (induction k)
  case 0
  then show ?case by (simp add: running_date_0)
next
  case (Suc k)
  have "year d \<le> year (month_after d)" for d by (simp add: month_after_def)
  then show ?case using Suc unfolding running_date_Suc' by (rule order_trans[rotated])
qed

lemma get_months_result:
  assumes "valid start" and "get_months start end_d = Some (Inr ls)"
  shows "ls = map (\<lambda>k. strftime (running_date start k)) [0..<length ls] \<and>
         (\<forall>k<length ls.
            dt_less (running_date start k) end_d \<and>
            valid (running_date start k) \<and>
            month_index (running_date start k) = month_index start + k \<and>
            ls ! k ! 2 = CHR ''/'' \<and> ls ! k ! 5 = CHR ''/'' \<and>
            month_field (ls ! k) = zfill 2 (str_nat (month (running_date start k))) \<and>
            day_field (ls ! k) = zfill 2 (str_nat (day (running_date start k))) \<and>
            (1000 \<le> year (running_date start k) \<longrightarrow>
               length (ls ! k) = 10 \<and> length (year_field (ls ! k)) = 4 \<and>
               year_field (ls ! k) = str_nat (year (running_date start k)))) \<and>
         (\<forall>k<length ls. 0 < k \<longrightarrow>
            day (running_date start k) = 1 \<and> day_field (ls ! k) = ''01'') \<and>
         (day start = 1 \<longrightarrow> (\<forall>l\<in>set ls. day_field l = ''01'')) \<and>
         (1000 \<le> year start \<longrightarrow> (\<forall>l\<in>set ls. length l = 10)) \<and>
         \<not> dt_less (running_date start (length ls)) end_d"
proof -
  from loop_result[OF assms(1) assms(2)[unfolded get_months_def]]
  obtain n where n: "ls = [] @ map (\<lambda>k. strftime (running_date start k)) [0..<n]"
    "\<forall>k<n. dt_less (running_date start k) end_d"
    "\<not> dt_less (running_date start n) end_d"
    "\<forall>k\<le>n. valid (running_date start k)" by blast
  have len: "length ls = n" using n(1) by simp
  have nth: "ls ! k = strftime (running_date start k)" if "k < n" for k
    using n(1) that by simp
  have v: "valid (running_date start k)" if "k < n" for k using n(4) that by simp
  have A: "ls = map (\<lambda>k. strftime (running_date start k)) [0..<length ls]"
    using n(1) len by simp
  have B: "dt_less (running_date start k) end_d \<and>
            valid (running_date start k) \<and>
            month_index (running_date start k) = month_index start + k \<and>
            ls ! k ! 2 = CHR ''/'' \<and> ls ! k ! 5 = CHR ''/'' \<and>
            month_field (ls ! k) = zfill 2 (str_nat (month (running_date start k))) \<and>
            day_field (ls ! k) = zfill 2 (str_nat (day (running_date start k))) \<and>
            (1000 \<le> year (running_date start k) \<longrightarrow>
               length (ls ! k) = 10 \<and> length (year_field (ls ! k)) = 4 \<and>
               year_field (ls ! k) = str_nat (year (running_date start k)))"
    if "k < length ls" for k
  proof -
    have k: "k < n" using that len by simp
    have "\<forall>j<k. valid (running_date start j)" using n(4) k by simp
    then have mi: "month_index (running_date start k) = month_index start + k"
      by (rule month_index_running_date)
    show ?thesis
      using n(2) k v[OF k] mi strftime_fields[OF v[OF k]] by (simp add: nth[OF k])
  qed
  have C: "day (running_date start k) = 1 \<and> day_field (ls ! k) = ''01''"
    if "k < length ls" "0 < k" for k
    using B[OF that(1)] day_running_date[OF that(2), of start] by (simp add: zfill_2_str_nat_1)
  have D: "\<forall>l\<in>set ls. day_field l = ''01''" if d1: "day start = 1"
  proof
    fix l assume "l \<in> set ls"
    then obtain k where k: "k < length ls" "l = ls ! k" by (auto simp: in_set_conv_nth)
    show "day_field l = ''01''"
    proof (cases k)
      case 0
      then show ?thesis using B[OF k(1)] d1 k(2) by (simp add: running_date_0 zfill_2_str_nat_1)
    next
      case (Suc j)
      then show ?thesis using C[OF k(1)] k(2) by simp
    qed
  qed
  have E: "\<forall>l\<in>set ls. length l = 10" if y: "1000 \<le> year start"
  proof
    fix l assume "l \<in> set ls"
    then obtain k where k: "k < length ls" "l = ls ! k" by (auto simp: in_set_conv_nth)
    have "1000 \<le> year (running_date start k)"
      using y year_running_date_ge[of start k] by simp
    then show "length l = 10" using B[OF k(1)] k(2) by simp
  qed
  show ?thesis using A B C D E n(3) len by blast
qed

lemma get_months_returns:
  assumes "valid start" and "valid end_d"
    and "\<not> (year end_d = MAXYEAR \<and> month end_d = 12)"
  shows "\<exists>ls. get_months start end_d = Some (Inr ls)"
proof -
  obtain r where r: "get_months start end_d = Some r"
    using loop_terminates[OF assms(1)] unfolding get_months_def by blast
  show ?thesis
  proof (cases r)
    case (Inl e)
    then have "year end_d = MAXYEAR \<and> month end_d = 12"
      using loop_error[OF assms(1,2)] r unfolding get_months_def by blast
    then show ?thesis using assms(3) by simp
  next
    case (Inr ls)
    then show ?thesis using r by simp
  qed
qed

lemma get_months_november_9999:
  "get_months (mk_date 9999 11 1) (mk_date 9999 12 31) = Some (Inl OverflowError)"
proof -
  let ?s = "mk_date 9999 11 1" and ?d = "mk_date 9999 12 1" and ?e = "mk_date 9999 12 31"
  have v: "valid ?s" by (simp add: valid_mk_date days_in_month_def)
  have l: "dt_less ?s ?e" "dt_less ?d ?e" by (simp_all add: dt_less_def dt_key_def mk_date_def)
  have nd: "\<not> (year ?s = MAXYEAR \<and> month ?s = 12)" by (simp add: mk_date_def)
  have m: "month_after ?s = ?d" by (simp add: month_after_def mk_date_def)
  have "get_months_loop ?s ?e [] = get_months_loop ?d ?e ([] @ [strftime ?s])"
    using loop_step[OF l(1) v nd] m by simp
  also have "\<dots> = Some (Inl OverflowError)"
    by (rule loop_overflow[OF l(2)]) (simp_all add: mk_date_def MAXYEAR_def)
  finally show ?thesis by (simp add: get_months_def)
qed

lemma strftime_year_999: "strftime (mk_date 999 12 1) = ''12/01/999''"
  by (simp add: strftime_def mk_date_def zfill_def str_nat.simps digit_char_def)

section \<open>The claims about the month enumerator\<close>

text \<open>
  C1, as the code has it. On naive dates, \<^verbatim>\<open>get_months\<close> returns a list for every start
  date and every end date outside December 9999. Whenever it returns a list, the labels
  are the running dates \<open>start\<close>, the first day of the next month, of the month after,
  and so on, one per calendar month and in order; every running date of the list is
  before the end date and the one after the last is not. A label is the month in two
  digits, a slash, the day in two digits, a slash and the year; from the year 1000 on
  the year has its four digits and the label the form \<^verbatim>\<open>MM/DD/YYYY\<close>, ten characters.
  The first label is the start date itself, with the day it has; every later label is a
  first day of a month, so all labels are when the start date is one.
\<close>

theorem get_months_labels:
  assumes "valid start" and "valid end_d"
  shows "(\<not> (year end_d = MAXYEAR \<and> month end_d = 12) \<longrightarrow>
            (\<exists>ls. get_months start end_d = Some (Inr ls))) \<and>
         (\<forall>ls. get_months start end_d = Some (Inr ls) \<longrightarrow>
            ls = map (\<lambda>k. strftime (running_date start k)) [0..<length ls] \<and>
            (\<forall>k<length ls.
               dt_less (running_date start k) end_d \<and>
               valid (running_date start k) \<and>
               month_index (running_date start k) = month_index start + k \<and>
               ls ! k ! 2 = CHR ''/'' \<and> ls ! k ! 5 = CHR ''/'' \<and>
               month_field (ls ! k) = zfill 2 (str_nat (month (running_date start k))) \<and>
               day_field (ls ! k) = zfill 2 (str_nat (day (running_date start k))) \<and>
               (1000 \<le> year (running_date start k) \<longrightarrow>
                  length (ls ! k) = 10 \<and> length (year_field (ls ! k)) = 4 \<and>
                  year_field (ls ! k) = str_nat (year (running_date start k)))) \<and>
            (\<forall>k<length ls. 0 < k \<longrightarrow>
               day (running_date start k) = 1 \<and> day_field (ls ! k) = ''01'') \<and>
            (day start = 1 \<longrightarrow> (\<forall>l\<in>set ls. day_field l = ''01'')) \<and>
            (1000 \<le> year start \<longrightarrow> (\<forall>l\<in>set ls. length l = 10)) \<and>
            \<not> dt_less (running_date start (length ls)) end_d)"
  using get_months_returns[OF assms] get_months_result[OF assms(1)] by blast

theorem get_months_labels_witness:
  "valid (mk_date 2022 1 15) \<and> valid (mk_date 2022 3 1) \<and> valid start_date \<and>
   valid end_date \<and> day start_date = 1 \<and> 1000 \<le> year (mk_date 2022 1 15) \<and>
   length ''01/15/2022'' = 10 \<and> length ''02/01/2022'' = 10 \<and>
   get_months (mk_date 2022 1 15) (mk_date 2022 3 1) =
     Some (Inr [''01/15/2022'', ''02/01/2022'']) \<and>
   dt_less (running_date (mk_date 2022 1 15) 1) (mk_date 2022 3 1) \<and>
   month_index (running_date (mk_date 2022 1 15) 1) = month_index (mk_date 2022 1 15) + 1 \<and>
   day (running_date (mk_date 2022 1 15) 1) = 1 \<and>
   day_field ([''01/15/2022'', ''02/01/2022''] ! 1) = ''01'' \<and>
   \<not> dt_less (running_date (mk_date 2022 1 15) 2) (mk_date 2022 3 1) \<and>
   (\<exists>ls. get_months start_date end_date = Some (Inr ls) \<and> ''06/01/2023'' \<in> set ls \<and>
      (\<forall>l\<in>set ls. day_field l = ''01''))"
proof -
  let ?s = "mk_date 2022 1 15" and ?e = "mk_date 2022 3 1"
  let ?ls = "[''01/15/2022'', ''02/01/2022'']"
  have v: "valid ?s" by (simp add: valid_mk_date days_in_month_def)
  have ve: "valid ?e" by (simp add: valid_mk_date days_in_month_def)
  have g: "get_months ?s ?e = Some (Inr ?ls)" by (rule get_months_15)
  have y: "1000 \<le> year ?s" by (simp add: mk_date_def)
  from get_months_labels[OF v ve] g y have len: "\<forall>l\<in>set ?ls. length l = 10" by blast
  from get_months_labels[OF v ve] g have T:
    "(\<forall>k<length ?ls. dt_less (running_date ?s k) ?e \<and>
        month_index (running_date ?s k) = month_index ?s + k) \<and>
     (\<forall>k<length ?ls. 0 < k \<longrightarrow> day (running_date ?s k) = 1 \<and> day_field (?ls ! k) = ''01'') \<and>
     \<not> dt_less (running_date ?s (length ?ls)) ?e" by blast
  have one: "1 < length ?ls" by simp
  from T have k1: "dt_less (running_date ?s 1) ?e"
    "month_index (running_date ?s 1) = month_index ?s + 1"
    using one by blast+
  from T have k2: "day (running_date ?s 1) = 1" "day_field (?ls ! 1) = ''01''"
    using one by (metis zero_less_one)+
  from T have "\<not> dt_less (running_date ?s (length ?ls)) ?e" by blast
  then have k3: "\<not> dt_less (running_date ?s 2) ?e" by (simp add: numeral_2_eq_2)
  have v2: "valid start_date" by (simp add: start_date_def valid_mk_date days_in_month_def)
  have d2: "day start_date = 1" by (simp add: start_date_def mk_date_def)
  obtain ms where ms: "get_months start_date end_date = Some (Inr ms)" "''06/01/2023'' \<in> set ms"
    using months_fixed_range by simp
  have ve2: "valid end_date" by (simp add: end_date_def valid_mk_date days_in_month_def)
  from get_months_labels[OF v2 ve2] ms(1) d2 have "\<forall>l\<in>set ms. day_field l = ''01''"
    by blast
  with ms have k4: "\<exists>ls. get_months start_date end_date = Some (Inr ls) \<and>
      ''06/01/2023'' \<in> set ls \<and> (\<forall>l\<in>set ls. day_field l = ''01'')" by blast
  have k5: "length ''01/15/2022'' = 10 \<and> length ''02/01/2022'' = 10" using len by simp
  show ?thesis using v ve v2 ve2 d2 y g k1 k2 k3 k4 k5 by blast
qed

text \<open>
  C1 as it is stated fails where the start date is not a first day of a month: from
  2022-01-15 to 2022-03-01 the first label is \<^verbatim>\<open>01/15/2022\<close>.
\<close>

theorem get_months_first_label_counterexample:
  "get_months (mk_date 2022 1 15) (mk_date 2022 3 1) =
     Some (Inr [''01/15/2022'', ''02/01/2022'']) \<and>
   day_field (hd [''01/15/2022'', ''02/01/2022'']) \<noteq> ''01''"
  using get_months_15 by (simp add: day_field_def)

text \<open>
  C2, as the code has it. For every date outside December 9999, replacing the day by 28,
  adding four days and replacing the day by 1 gives the first day of the calendar month
  that follows, whatever the length of the month: the month number grows by exactly one,
  so no month is skipped and none repeated. In December 9999 the month that follows is
  outside the range of the date type and the addition raises OverflowError.
\<close>

theorem normalization_step_next_month:
  assumes "valid d"
  shows "(\<not> (year d = MAXYEAR \<and> month d = 12) \<longrightarrow>
            advance d = Inr (month_after d) \<and> valid (month_after d) \<and>
            day (month_after d) = 1 \<and> month_index (month_after d) = month_index d + 1) \<and>
         (year d = MAXYEAR \<and> month d = 12 \<longrightarrow> advance d = Inl OverflowError)"
proof (intro conjI impI)
  assume nd: "\<not> (year d = MAXYEAR \<and> month d = 12)"
  show "advance d = Inr (month_after d)" by (rule advance_ok[OF assms nd])
  show "valid (month_after d)" by (rule valid_month_after[OF assms nd])
  show "day (month_after d) = 1" by (simp add: month_after_def)
  show "month_index (month_after d) = month_index d + 1" by (rule month_index_after[OF assms])
next
  assume "year d = MAXYEAR \<and> month d = 12"
  then show "advance d = Inl OverflowError" by (simp add: advance_overflow)
qed

theorem normalization_step_next_month_witness:
  "valid (mk_date 2024 2 29) \<and> advance (mk_date 2024 2 29) = Inr (mk_date 2024 3 1) \<and>
   valid (mk_date 2023 2 10) \<and> advance (mk_date 2023 2 10) = Inr (mk_date 2023 3 1) \<and>
   valid (mk_date 2022 12 31) \<and> advance (mk_date 2022 12 31) = Inr (mk_date 2023 1 1) \<and>
   valid (mk_date 9999 12 25) \<and> advance (mk_date 9999 12 25) = Inl OverflowError"
proof -
  have v: "valid (mk_date 2024 2 29)" "valid (mk_date 2023 2 10)"
    "valid (mk_date 2022 12 31)" "valid (mk_date 9999 12 25)"
    by (simp_all add: valid_mk_date days_in_month_def is_leap_def)
  show ?thesis
    using v normalization_step_next_month[OF v(1)] normalization_step_next_month[OF v(2)]
      normalization_step_next_month[OF v(3)] normalization_step_next_month[OF v(4)]
    by (simp add: mk_date_def month_after_def MAXYEAR_def)
qed

text \<open>
  C2 as it is stated, for every date, fails on 9999-12-01: the step raises instead of
  giving a date.
\<close>

theorem normalization_step_counterexample:
  "valid (mk_date 9999 12 1) \<and> advance (mk_date 9999 12 1) = Inl OverflowError \<and>
   advance (mk_date 9999 12 1) \<noteq> Inr (month_after (mk_date 9999 12 1))"
proof -
  have "advance (mk_date 9999 12 1) = Inl OverflowError"
    by (rule advance_overflow) (simp_all add: mk_date_def MAXYEAR_def)
  then show ?thesis by (simp add: valid_mk_date days_in_month_def)
qed

text \<open>
  C3. The fixed range of the script, 2022-01-01 up to 2025-01-01 excluded, gives 36
  labels, the first \<^verbatim>\<open>01/01/2022\<close> and the last \<^verbatim>\<open>12/01/2024\<close>.
\<close>

theorem get_months_fixed_range:
  "start_date = mk_date 2022 1 1 \<and> end_date = mk_date 2025 1 1 \<and>
   (\<exists>ls. get_months start_date end_date = Some (Inr ls) \<and> length ls = 36 \<and>
         hd ls = ''01/01/2022'' \<and> last ls = ''12/01/2024'')"
proof (intro conjI)
  show "start_date = mk_date 2022 1 1" by (simp add: start_date_def)
  show "end_date = mk_date 2025 1 1" by (simp add: end_date_def)
  show "\<exists>ls. get_months start_date end_date = Some (Inr ls) \<and> length ls = 36 \<and>
         hd ls = ''01/01/2022'' \<and> last ls = ''12/01/2024''"
    using months_fixed_range by simp
qed

text \<open>
  C4, as the code has it. When the start date is not before the end date the result is
  the empty list. The function has one error condition: the OverflowError of the date
  library, and only when the start date is before the end date and the end date lies in
  December 9999; for every other end date it returns a list.
\<close>

theorem get_months_empty_or_error:
  assumes "valid start" and "valid end_d"
  shows "(\<not> dt_less start end_d \<longrightarrow> get_months start end_d = Some (Inr [])) \<and>
         (\<forall>e. get_months start end_d = Some (Inl e) \<longrightarrow>
              e = OverflowError \<and> dt_less start end_d \<and> year end_d = MAXYEAR \<and> month end_d = 12) \<and>
         (\<not> (year end_d = MAXYEAR \<and> month end_d = 12) \<longrightarrow>
              (\<exists>ls. get_months start end_d = Some (Inr ls)))"
proof -
  have A: "get_months start end_d = Some (Inr [])" if "\<not> dt_less start end_d"
    unfolding get_months_def using that by (rule loop_stop)
  have B: "e = OverflowError \<and> dt_less start end_d \<and> year end_d = MAXYEAR \<and> month end_d = 12"
    if e: "get_months start end_d = Some (Inl e)" for e
  proof -
    have "e = OverflowError \<and> year end_d = MAXYEAR \<and> month end_d = 12"
      using loop_error[OF assms] e unfolding get_months_def by blast
    moreover have "dt_less start end_d" using A e by fastforce
    ultimately show ?thesis by simp
  qed
  have C: "\<exists>ls. get_months start end_d = Some (Inr ls)"
    if nd: "\<not> (year end_d = MAXYEAR \<and> month end_d = 12)"
    using get_months_returns[OF assms nd] .
  show ?thesis using A B C by blast
qed

theorem get_months_empty_or_error_witness:
  "valid (mk_date 2025 1 1) \<and> valid (mk_date 2022 1 1) \<and>
   \<not> dt_less (mk_date 2025 1 1) (mk_date 2022 1 1) \<and>
   get_months (mk_date 2025 1 1) (mk_date 2022 1 1) = Some (Inr []) \<and>
   get_months (mk_date 2022 1 1) (mk_date 2022 1 1) = Some (Inr []) \<and>
   (\<exists>ls. get_months (mk_date 2022 1 1) (mk_date 2025 1 1) = Some (Inr ls)) \<and>
   valid (mk_date 9999 12 1) \<and> valid (mk_date 9999 12 31) \<and>
   get_months (mk_date 9999 12 1) (mk_date 9999 12 31) = Some (Inl OverflowError) \<and>
   dt_less (mk_date 9999 12 1) (mk_date 9999 12 31) \<and>
   year (mk_date 9999 12 31) = MAXYEAR \<and> month (mk_date 9999 12 31) = 12"
proof -
  have v: "valid (mk_date 2025 1 1)" "valid (mk_date 2022 1 1)"
    "valid (mk_date 9999 12 1)" "valid (mk_date 9999 12 31)"
    by (simp_all add: valid_mk_date days_in_month_def)
  have n1: "\<not> dt_less (mk_date 2025 1 1) (mk_date 2022 1 1)"
    and n2: "\<not> dt_less (mk_date 2022 1 1) (mk_date 2022 1 1)"
    by (simp_all add: dt_less_def dt_key_def mk_date_def)
  have n3: "\<not> (year (mk_date 2025 1 1) = MAXYEAR \<and> month (mk_date 2025 1 1) = 12)"
    by (simp add: mk_date_def)
  have a: "get_months (mk_date 2025 1 1) (mk_date 2022 1 1) = Some (Inr [])"
    using get_months_empty_or_error[OF v(1) v(2)] n1 by blast
  have b: "get_months (mk_date 2022 1 1) (mk_date 2022 1 1) = Some (Inr [])"
    using get_months_empty_or_error[OF v(2) v(2)] n2 by blast
  have c: "\<exists>ls. get_months (mk_date 2022 1 1) (mk_date 2025 1 1) = Some (Inr ls)"
    using get_months_empty_or_error[OF v(2) v(1)] n3 by blast
  have d: "dt_less (mk_date 9999 12 1) (mk_date 9999 12 31) \<and>
           year (mk_date 9999 12 31) = MAXYEAR \<and> month (mk_date 9999 12 31) = 12"
    using get_months_empty_or_error[OF v(3) v(4)] get_months_december_9999 by blast
  show ?thesis using v n1 a b c d get_months_december_9999 by blast
qed

text \<open>
  C4 as it is stated: the function does have an error condition. From 9999-12-01 to
  9999-12-31 the start date is before the end date and the call raises OverflowError.
\<close>

theorem get_months_error_counterexample:
  "valid (mk_date 9999 12 1) \<and> valid (mk_date 9999 12 31) \<and>
   get_months (mk_date 9999 12 1) (mk_date 9999 12 31) = Some (Inl OverflowError)"
  using get_months_december_9999 by (simp add: valid_mk_date days_in_month_def)

text \<open>
  C10, as the code has it. \<^verbatim>\<open>get_months\<close> terminates on every naive start and end date:
  the loop, whose model has \<open>None\<close> for a run that never ends, always gives a result.
  An iteration whose running date lies outside December 9999 advances it to the first
  day of the next calendar month, strictly later than before; an iteration whose running
  date lies in December 9999 raises OverflowError, which ends the call. So either the
  condition \<^verbatim>\<open>current < end\<close> fails in the end and a list is returned, or the call ends
  with OverflowError; the second is possible only with an end date in December 9999.
\<close>

theorem get_months_terminates:
  assumes "valid start"
  shows "(\<exists>r. get_months start end_d = Some r) \<and>
         (get_months start end_d = Some (Inl OverflowError) \<or>
          (\<exists>ls. get_months start end_d = Some (Inr ls) \<and>
                \<not> dt_less (running_date start (length ls)) end_d)) \<and>
         (valid end_d \<and> \<not> (year end_d = MAXYEAR \<and> month end_d = 12) \<longrightarrow>
            (\<exists>ls. get_months start end_d = Some (Inr ls))) \<and>
         (\<forall>d. valid d \<longrightarrow>
            (year d = MAXYEAR \<and> month d = 12 \<longrightarrow> advance d = Inl OverflowError) \<and>
            (\<not> (year d = MAXYEAR \<and> month d = 12) \<longrightarrow>
               advance d = Inr (month_after d) \<and> valid (month_after d) \<and>
               day (month_after d) = 1 \<and>
               month_index (month_after d) = month_index d + 1 \<and>
               dt_less d (month_after d) \<and>
               month_index (month_after d) \<le> 12 * MAXYEAR + 11)) \<and>
         (\<forall>d d'. valid d \<and> advance d = Inr d' \<longrightarrow>
            valid d' \<and> day d' = 1 \<and> month_index d' = month_index d + 1 \<and> dt_less d d' \<and>
            month_index d' \<le> 12 * MAXYEAR + 11)"
proof -
  obtain r where r: "get_months start end_d = Some r"
    using loop_terminates[OF assms] unfolding get_months_def by blast
  have A: "\<exists>r. get_months start end_d = Some r" using r by blast
  have A': "get_months start end_d = Some (Inl OverflowError) \<or>
          (\<exists>ls. get_months start end_d = Some (Inr ls) \<and>
                \<not> dt_less (running_date start (length ls)) end_d)"
  proof (cases r)
    case (Inl e)
    then have "e = OverflowError"
      using loop_error_overflow[OF assms] r unfolding get_months_def by blast
    then show ?thesis using r Inl by simp
  next
    case (Inr ls)
    then have g: "get_months start end_d = Some (Inr ls)" using r by simp
    from get_months_result[OF assms g]
    have "\<not> dt_less (running_date start (length ls)) end_d" by blast
    then show ?thesis using g by blast
  qed
  have A'': "\<exists>ls. get_months start end_d = Some (Inr ls)"
    if "valid end_d \<and> \<not> (year end_d = MAXYEAR \<and> month end_d = 12)"
    using get_months_returns[OF assms] that by blast
  have S: "advance d = Inr (month_after d) \<and> valid (month_after d) \<and>
           day (month_after d) = 1 \<and> month_index (month_after d) = month_index d + 1 \<and>
           dt_less d (month_after d) \<and> month_index (month_after d) \<le> 12 * MAXYEAR + 11"
    if v: "valid d" and nd: "\<not> (year d = MAXYEAR \<and> month d = 12)" for d
  proof -
    have v': "valid (month_after d)" by (rule valid_month_after[OF v nd])
    show ?thesis
      using advance_ok[OF v nd] v' month_index_after[OF v] dt_less_month_after[OF v]
        month_index_le[OF v']
      by (simp add: month_after_def)
  qed
  have O: "advance d = Inl OverflowError" if "year d = MAXYEAR \<and> month d = 12" for d
    using that by (simp add: advance_overflow)
  have B: "valid d' \<and> day d' = 1 \<and> month_index d' = month_index d + 1 \<and> dt_less d d' \<and>
           month_index d' \<le> 12 * MAXYEAR + 11"
    if "valid d" "advance d = Inr d'" for d d'
  proof -
    have nd: "\<not> (year d = MAXYEAR \<and> month d = 12)"
      using that(2) advance_overflow[of d] by auto
    have eq: "d' = month_after d" using advance_ok[OF that(1) nd] that(2) by simp
    show ?thesis using S[OF that(1) nd] by (simp add: eq)
  qed
  show ?thesis
  proof (intro conjI)
    show "\<exists>r. get_months start end_d = Some r" by (rule A)
    show "get_months start end_d = Some (Inl OverflowError) \<or>
          (\<exists>ls. get_months start end_d = Some (Inr ls) \<and>
                \<not> dt_less (running_date start (length ls)) end_d)" by (rule A')
    show "valid end_d \<and> \<not> (year end_d = MAXYEAR \<and> month end_d = 12) \<longrightarrow>
            (\<exists>ls. get_months start end_d = Some (Inr ls))" using A'' by (rule impI)
    show "\<forall>d. valid d \<longrightarrow>
            (year d = MAXYEAR \<and> month d = 12 \<longrightarrow> advance d = Inl OverflowError) \<and>
            (\<not> (year d = MAXYEAR \<and> month d = 12) \<longrightarrow>
               advance d = Inr (month_after d) \<and> valid (month_after d) \<and>
               day (month_after d) = 1 \<and>
               month_index (month_after d) = month_index d + 1 \<and>
               dt_less d (month_after d) \<and>
               month_index (month_after d) \<le> 12 * MAXYEAR + 11)"
    proof (intro allI impI conjI)
      fix d :: datetime
      assume "year d = MAXYEAR \<and> month d = 12"
      then show "advance d = Inl OverflowError" by (rule O)
    next
      fix d :: datetime
      assume v: "valid d" and nd: "\<not> (year d = MAXYEAR \<and> month d = 12)"
      note s = S[OF v nd]
      show "advance d = Inr (month_after d)" using s by simp
      show "valid (month_after d)" using s by simp
      show "day (month_after d) = 1" using s by simp
      show "month_index (month_after d) = month_index d + 1" using s by simp
      show "dt_less d (month_after d)" using s by simp
      show "month_index (month_after d) \<le> 12 * MAXYEAR + 11" using s by simp
    qed
    show "\<forall>d d'. valid d \<and> advance d = Inr d' \<longrightarrow>
            valid d' \<and> day d' = 1 \<and> month_index d' = month_index d + 1 \<and> dt_less d d' \<and>
            month_index d' \<le> 12 * MAXYEAR + 11"
      using B by blast
  qed
qed

theorem get_months_terminates_witness:
  "valid start_date \<and> valid end_date \<and>
   (\<exists>ls. get_months start_date end_date = Some (Inr ls) \<and>
      \<not> dt_less (running_date start_date (length ls)) end_date) \<and>
   advance start_date = Inr (mk_date 2022 2 1) \<and>
   month_index (mk_date 2022 2 1) = month_index start_date + 1 \<and>
   dt_less start_date (mk_date 2022 2 1) \<and>
   valid (mk_date 9999 11 1) \<and>
   get_months (mk_date 9999 11 1) (mk_date 9999 12 31) = Some (Inl OverflowError) \<and>
   valid (mk_date 9999 12 25) \<and> advance (mk_date 9999 12 25) = Inl OverflowError"
proof -
  have v: "valid start_date" by (simp add: start_date_def valid_mk_date days_in_month_def)
  have ve: "valid end_date" by (simp add: end_date_def valid_mk_date days_in_month_def)
  have ne: "\<not> (year end_date = MAXYEAR \<and> month end_date = 12)"
    by (simp add: end_date_def mk_date_def)
  have nd: "\<not> (year start_date = MAXYEAR \<and> month start_date = 12)"
    by (simp add: start_date_def mk_date_def MAXYEAR_def)
  have ma: "month_after start_date = mk_date 2022 2 1"
    by (simp add: start_date_def mk_date_def month_after_def)
  note T = get_months_terminates[OF v, of end_date]
  note T3 = T[THEN conjunct2, THEN conjunct2, THEN conjunct1]
  note T4 = T[THEN conjunct2, THEN conjunct2, THEN conjunct2, THEN conjunct1]
  from T3 ve ne obtain ls where ls: "get_months start_date end_date = Some (Inr ls)" by blast
  from T[THEN conjunct2, THEN conjunct1] ls
  have a: "\<exists>ls. get_months start_date end_date = Some (Inr ls) \<and>
      \<not> dt_less (running_date start_date (length ls)) end_date" by auto
  from T4[THEN spec, of start_date] v nd
  have "advance start_date = Inr (month_after start_date) \<and>
      month_index (month_after start_date) = month_index start_date + 1 \<and>
      dt_less start_date (month_after start_date)" by simp
  then have b: "advance start_date = Inr (mk_date 2022 2 1) \<and>
      month_index (mk_date 2022 2 1) = month_index start_date + 1 \<and>
      dt_less start_date (mk_date 2022 2 1)" by (simp only: ma)
  have v2: "valid (mk_date 9999 11 1)" "valid (mk_date 9999 12 25)"
    by (simp_all add: valid_mk_date days_in_month_def)
  have d: "year (mk_date 9999 12 25) = MAXYEAR \<and> month (mk_date 9999 12 25) = 12"
    by (simp add: mk_date_def MAXYEAR_def)
  note U = get_months_terminates[OF v2(1), of "mk_date 9999 12 31"]
  note U4 = U[THEN conjunct2, THEN conjunct2, THEN conjunct2, THEN conjunct1]
  from U4[THEN spec, of "mk_date 9999 12 25"] v2(2) d
  have c: "advance (mk_date 9999 12 25) = Inl OverflowError" by simp
  show ?thesis using v ve a b v2 c get_months_november_9999 by simp
qed

text \<open>
  C10 as it is stated: not every iteration advances the running date, and the condition
  need not fail. From 9999-11-01 up to 9999-12-31 the second iteration has the running
  date 9999-12-01, still before the end date; its advance raises OverflowError and the
  call ends with it.
\<close>

theorem get_months_iteration_counterexample:
  "valid (mk_date 9999 11 1) \<and> valid (mk_date 9999 12 31) \<and>
   advance (mk_date 9999 11 1) = Inr (mk_date 9999 12 1) \<and>
   dt_less (mk_date 9999 12 1) (mk_date 9999 12 31) \<and>
   advance (mk_date 9999 12 1) = Inl OverflowError \<and>
   get_months (mk_date 9999 11 1) (mk_date 9999 12 31) = Some (Inl OverflowError)"
proof -
  have v: "valid (mk_date 9999 11 1)" "valid (mk_date 9999 12 31)"
    by (simp_all add: valid_mk_date days_in_month_def)
  have "advance (mk_date 9999 11 1) = Inr (month_after (mk_date 9999 11 1))"
    by (rule advance_ok[OF v(1)]) (simp add: mk_date_def)
  then have a: "advance (mk_date 9999 11 1) = Inr (mk_date 9999 12 1)"
    by (simp add: month_after_def mk_date_def)
  have l: "dt_less (mk_date 9999 12 1) (mk_date 9999 12 31)"
    by (simp add: dt_less_def dt_key_def mk_date_def)
  have o: "advance (mk_date 9999 12 1) = Inl OverflowError"
    by (rule advance_overflow) (simp_all add: mk_date_def MAXYEAR_def)
  show ?thesis using v a l o get_months_november_9999 by simp
qed

section \<open>Evaluations of the row synthesizer\<close>

lemma fl_numeral:
  assumes "(numeral n :: int) < 2 ^ 53"
  shows "fl (numeral n) = numeral n"
proof -
  have "\<bar>numeral n :: int\<bar> < 2 ^ 53" using assms by simp
  from fl_of_int[OF this] show ?thesis by simp
qed

lemma fl_0: "fl 0 = 0"
  by (simp add: fl_def)

lemma rhe_numeral: "rhe (numeral n) = numeral n"
  using rhe_of_int[of "numeral n"] by simp

lemma loop_body_row_sconst_0:
  "loop_body_row m p (sconst 0) =
   \<lparr>month_label = m, product_name = p, unit_price = 5, quantity = 50, sales_amount = 250\<rparr>"
proof -
  have u: "fst (uniform 5 50 (sconst 0)) = 5"
    by (simp add: uniform_def random_def int_add_float_def int_mul_float_def float_of_int_def
        fl_numeral fl_0)
  have p: "py_round 5 2 = 5" by (simp add: py_round_def rhe_numeral fl_numeral)
  have q: "fst (randint 50 500 (sconst 0)) = 50" by (simp add: randint_def)
  have s: "py_round (float_mul_int 5 50) 2 = 250"
    by (simp add: py_round_def float_mul_int_def float_of_int_def rhe_numeral fl_numeral)
  show ?thesis by (simp add: loop_body_row_def Let_def u p q s)
qed

section \<open>The claims about the rows and the file\<close>

text \<open>
  C5. In every generated row the sales amount is \<^verbatim>\<open>round(unit_price * quantity, 2)\<close>
  computed from the unit price and the quantity stored in the same row: for the rows of
  any list of months and any generator, and so for the rows of the script.
\<close>

theorem rows_sales_consistent:
  "(\<forall>r\<in>set (generate months rng).
      sales_amount r = py_round (float_mul_int (unit_price r) (quantity r)) 2) \<and>
   (\<exists>data content. script float_str rng = Some (Inr (data, content)) \<and>
      (\<forall>r\<in>set data.
         sales_amount r = py_round (float_mul_int (unit_price r) (quantity r)) 2))"
proof -
  have A: "\<forall>r\<in>set (generate ms rng). sales_consistent r" for ms
    by (rule generate_inv) (rule loop_body_row_sales)
  show ?thesis
    using A[of months] A[of months_2022_2024] script_eq[of float_str rng]
    by (simp add: sales_consistent_def)
qed

theorem rows_sales_consistent_witness:
  "\<lparr>month_label = ''01/01/2022'', product_name = ''Product 1'', unit_price = 5,
     quantity = 50, sales_amount = 250\<rparr> \<in> set (generate [''01/01/2022''] (sconst 0)) \<and>
   (250 :: rat) = py_round (float_mul_int 5 50) 2"
proof -
  let ?r = "\<lparr>month_label = ''01/01/2022'', product_name = ''Product 1'', unit_price = 5,
     quantity = 50, sales_amount = 250\<rparr>"
  have m: "?r \<in> set (generate [''01/01/2022''] (sconst 0))"
    using generate_first[of "''01/01/2022''" "sconst 0" "[]"]
    by (simp only: loop_body_row_sconst_0)
  from rows_sales_consistent[of "[''01/01/2022'']" "sconst 0"] m
  have "sales_amount ?r = py_round (float_mul_int (unit_price ?r) (quantity ?r)) 2" by blast
  then show ?thesis using m by simp
qed

text \<open>
  C6. In every generated row the unit price lies between 5 and 50, both included, and is
  the result of rounding to two decimals a number of that interval; the quantity is an
  integer between 50 and 500, both included.
\<close>

theorem rows_in_ranges:
  "(\<forall>r\<in>set (generate months rng).
      5 \<le> unit_price r \<and> unit_price r \<le> 50 \<and> rounded_price (unit_price r) \<and>
      50 \<le> quantity r \<and> quantity r \<le> 500) \<and>
   (\<exists>data content. script float_str rng = Some (Inr (data, content)) \<and>
      (\<forall>r\<in>set data.
         5 \<le> unit_price r \<and> unit_price r \<le> 50 \<and> rounded_price (unit_price r) \<and>
         50 \<le> quantity r \<and> quantity r \<le> 500))"
proof -
  have A: "\<forall>r\<in>set (generate ms rng). in_ranges r \<and> rounded_price (unit_price r)" for ms
    by (rule generate_inv) (simp add: loop_body_row_ranges loop_body_row_price)
  show ?thesis
    using A[of months] A[of months_2022_2024] script_eq[of float_str rng]
    by (simp add: in_ranges_def)
qed

theorem rows_in_ranges_witness:
  "\<lparr>month_label = ''12/01/2024'', product_name = ''Product 1'', unit_price = 5,
     quantity = 50, sales_amount = 250\<rparr> \<in> set (generate [''12/01/2024''] (sconst 0)) \<and>
   (5 :: rat) \<le> 5 \<and> (5 :: rat) \<le> 50 \<and> rounded_price 5 \<and> (50 :: int) \<le> 50 \<and> (50 :: int) \<le> 500"
proof -
  let ?r = "\<lparr>month_label = ''12/01/2024'', product_name = ''Product 1'', unit_price = 5,
     quantity = 50, sales_amount = 250\<rparr>"
  have m: "?r \<in> set (generate [''12/01/2024''] (sconst 0))"
    using generate_first[of "''12/01/2024''" "sconst 0" "[]"]
    by (simp only: loop_body_row_sconst_0)
  from rows_in_ranges[of "[''12/01/2024'']" "sconst 0"] m
  have "5 \<le> unit_price ?r \<and> unit_price ?r \<le> 50 \<and> rounded_price (unit_price ?r) \<and>
        50 \<le> quantity ?r \<and> quantity ?r \<le> 500" by blast
  then show ?thesis using m by simp
qed

text \<open>
  C7. The dataset has one row for each pair of a month and a product, the months in the
  outer position and the fifteen products \<^verbatim>\<open>Product 1\<close> to \<^verbatim>\<open>Product 15\<close> in the inner
  one, in index order; so the number of rows is the number of months times 15, which is
  540 for the script.
\<close>

theorem dataset_shape:
  "length (generate months rng) = length months * 15 \<and>
   map labels (generate months rng) = concat (map (\<lambda>m. map (Pair m) products) months) \<and>
   products = [''Product 1'', ''Product 2'', ''Product 3'', ''Product 4'', ''Product 5'',
     ''Product 6'', ''Product 7'', ''Product 8'', ''Product 9'', ''Product 10'',
     ''Product 11'', ''Product 12'', ''Product 13'', ''Product 14'', ''Product 15''] \<and>
   get_months start_date end_date = Some (Inr months_2022_2024) \<and>
   length months_2022_2024 = 36 \<and>
   script float_str rng =
     Some (Inr (generate months_2022_2024 rng,
                csv_file float_str (generate months_2022_2024 rng))) \<and>
   length (generate months_2022_2024 rng) = 540"
proof -
  have "length (generate months_2022_2024 rng) = 540"
    by (simp add: length_generate length_months_2022_2024)
  then show ?thesis
    using length_generate[of months rng] generate_labels[of months rng] products_eq
      get_months_2022_2024 length_months_2022_2024 script_eq[of float_str rng]
    by (simp only: simp_thms)
qed

text \<open>
  C8, as the code has it. The first line of the file is the five header names joined by
  commas with no space after a comma, and the file has one line more than the dataset
  has rows, 541 lines; this for every formatting of floats that puts no line break into
  a number.
\<close>

theorem csv_file_lines:
  assumes "\<forall>x. break_free (float_str x)"
  shows "\<exists>data content.
           script float_str rng = Some (Inr (data, content)) \<and>
           written_file float_str rng = Some content \<and>
           hd (file_lines content) =
             ''month/year,product name,unit price,quantity,sales amount'' \<and>
           length (file_lines content) = 1 + length data \<and>
           length data = 540"
proof -
  let ?data = "generate months_2022_2024 rng"
  let ?content = "csv_file float_str ?data"
  have s: "script float_str rng = Some (Inr (?data, ?content))" by (rule script_eq)
  have w: "written_file float_str rng = Some ?content" by (simp add: written_file_def s)
  have l: "file_lines ?content =
           record_text header # map (\<lambda>r. record_text (row_fields float_str r)) ?data"
    using assms break_free_months by (rule file_lines_csv_file)
  have n: "length ?data = 540" by (simp add: length_generate length_months_2022_2024)
  have "hd (file_lines ?content) =
          ''month/year,product name,unit price,quantity,sales amount''"
    unfolding l by (simp add: record_text_header)
  moreover have "length (file_lines ?content) = 1 + length ?data" unfolding l by simp
  ultimately show ?thesis using s w n by blast
qed

theorem csv_file_lines_witness:
  "(\<forall>x. break_free ((\<lambda>x. ''0.0'') x)) \<and>
   (\<exists>data content.
      script (\<lambda>x. ''0.0'') (sconst 0) = Some (Inr (data, content)) \<and>
      hd (file_lines content) = ''month/year,product name,unit price,quantity,sales amount'' \<and>
      length (file_lines content) = 541)"
proof -
  have h: "\<forall>x :: rat. break_free ((\<lambda>x. ''0.0'') x)"
    by (simp add: break_free_def CR_def LF_def)
  from csv_file_lines[OF h, of "sconst 0"] obtain data content where
    "script (\<lambda>x. ''0.0'') (sconst 0) = Some (Inr (data, content))"
    "hd (file_lines content) = ''month/year,product name,unit price,quantity,sales amount''"
    "length (file_lines content) = 1 + length data" "length data = 540" by blast
  then have "\<exists>data content.
      script (\<lambda>x. ''0.0'') (sconst 0) = Some (Inr (data, content)) \<and>
      hd (file_lines content) = ''month/year,product name,unit price,quantity,sales amount'' \<and>
      length (file_lines content) = 541" by auto
  then show ?thesis using h by blast
qed

text \<open>
  C8 as it is stated names a header line with a space after each comma; the line the
  script writes has none.
\<close>

theorem csv_header_line_counterexample:
  "map_option (\<lambda>content. hd (file_lines content)) (written_file (\<lambda>x. ''0.0'') (sconst 0)) =
     Some ''month/year,product name,unit price,quantity,sales amount'' \<and>
   ''month/year,product name,unit price,quantity,sales amount'' \<noteq> spec_header_line"
proof -
  let ?data = "generate months_2022_2024 (sconst 0)"
  have w: "written_file (\<lambda>x. ''0.0'') (sconst 0) = Some (csv_file (\<lambda>x. ''0.0'') ?data)"
    by (simp add: written_file_def script_eq)
  have "file_lines (csv_file (\<lambda>x. ''0.0'') ?data) =
        record_text header # map (\<lambda>r. record_text (row_fields (\<lambda>x. ''0.0'') r)) ?data"
    by (rule file_lines_csv_file) (simp_all add: break_free_months, simp add: break_free_def CR_def LF_def)
  then have "hd (file_lines (csv_file (\<lambda>x. ''0.0'') ?data)) =
             ''month/year,product name,unit price,quantity,sales amount''"
    by (simp add: record_text_header)
  then show ?thesis using w by (simp add: spec_header_line_def)
qed

text \<open>
  C9. For the fixed date range and product list the number of rows and the columns of
  month labels and product names are the same for any two generators (and any two
  formattings of floats): neither depends on the random source.
\<close>

theorem labels_independent_of_random_source:
  "length (generate months rng) = length (generate months rng') \<and>
   map month_label (generate months rng) = map month_label (generate months rng') \<and>
   map product_name (generate months rng) = map product_name (generate months rng') \<and>
   (\<exists>data content data' content'.
      script float_str rng = Some (Inr (data, content)) \<and>
      script float_str' rng' = Some (Inr (data', content')) \<and>
      length data = length data' \<and> length data = 540 \<and>
      map month_label data = map month_label data' \<and>
      map product_name data = map product_name data')"
proof -
  have L: "map labels (generate ms g) = map labels (generate ms g')" for ms g g'
    by (simp only: generate_labels)
  have M: "map month_label (generate ms g) = map month_label (generate ms g')" for ms g g'
  proof -
    have e: "map month_label xs = map fst (map labels xs)" for xs
      by (simp add: labels_def comp_def)
    show ?thesis by (simp only: e L[of ms g g'])
  qed
  have P: "map product_name (generate ms g) = map product_name (generate ms g')" for ms g g'
  proof -
    have e: "map product_name xs = map snd (map labels xs)" for xs
      by (simp add: labels_def comp_def)
    show ?thesis by (simp only: e L[of ms g g'])
  qed
  have N: "length (generate ms g) = length (generate ms g')" for ms g g'
    by (simp add: length_generate)
  have "length (generate months_2022_2024 rng) = 540"
    by (simp add: length_generate length_months_2022_2024)
  then have S: "\<exists>data content data' content'.
      script float_str rng = Some (Inr (data, content)) \<and>
      script float_str' rng' = Some (Inr (data', content')) \<and>
      length data = length data' \<and> length data = 540 \<and>
      map month_label data = map month_label data' \<and>
      map product_name data = map product_name data'"
    using script_eq[of float_str rng] script_eq[of float_str' rng']
      N[of months_2022_2024 rng rng'] M[of months_2022_2024 rng rng']
      P[of months_2022_2024 rng rng'] by blast
  show ?thesis using N[of months rng rng'] M[of months rng rng'] P[of months rng rng'] S
    by blast
qed

end
